theory Spec2Isabelle
  imports Main "HOL-Library.Word" "HOL-Library.AList"
begin

section \<open>Strings of the wire protocol\<close>

text \<open>
  Lines are byte strings. The two sentinels the command loop compares against are the
  Go raw literals \<^verbatim>\<open>`"Exit"`\<close> and \<^verbatim>\<open>`"Interrupt"`\<close>: the words with their double quotes.
\<close>

definition dquote :: char where
  "dquote = CHR 0x22"

definition exit_literal :: string where
  "exit_literal = dquote # ''Exit'' @ [dquote]"

definition interrupt_literal :: string where
  "interrupt_literal = dquote # ''Interrupt'' @ [dquote]"

text \<open>
  \<^verbatim>\<open>strings.TrimSpace\<close> removes leading and trailing Unicode white space. On the UTF-8
  bytes of a line these are the six ASCII characters and the encodings of U+0085, U+00A0,
  U+1680, U+2000 to U+200A, U+2028, U+2029, U+202F, U+205F and U+3000.
\<close>

definition space_encodings :: "string list" where
  "space_encodings =
    [[CHR 0x09], [CHR 0x0A], [CHR 0x0B], [CHR 0x0C], [CHR 0x0D], [CHR 0x20],
     [CHR 0xC2, CHR 0x85], [CHR 0xC2, CHR 0xA0], [CHR 0xE1, CHR 0x9A, CHR 0x80],
     [CHR 0xE2, CHR 0x80, CHR 0x80], [CHR 0xE2, CHR 0x80, CHR 0x81],
     [CHR 0xE2, CHR 0x80, CHR 0x82], [CHR 0xE2, CHR 0x80, CHR 0x83],
     [CHR 0xE2, CHR 0x80, CHR 0x84], [CHR 0xE2, CHR 0x80, CHR 0x85],
     [CHR 0xE2, CHR 0x80, CHR 0x86], [CHR 0xE2, CHR 0x80, CHR 0x87],
     [CHR 0xE2, CHR 0x80, CHR 0x88], [CHR 0xE2, CHR 0x80, CHR 0x89],
     [CHR 0xE2, CHR 0x80, CHR 0x8A], [CHR 0xE2, CHR 0x80, CHR 0xA8],
     [CHR 0xE2, CHR 0x80, CHR 0xA9], [CHR 0xE2, CHR 0x80, CHR 0xAF],
     [CHR 0xE2, CHR 0x81, CHR 0x9F], [CHR 0xE3, CHR 0x80, CHR 0x80]]"

fun strip_one :: "string list \<Rightarrow> string \<Rightarrow> string option" where
  "strip_one [] s = None"
| "strip_one (e # es) s =
     (if take (length e) s = e then Some (drop (length e) s) else strip_one es s)"

fun trim_left :: "nat \<Rightarrow> string list \<Rightarrow> string \<Rightarrow> string" where
  "trim_left 0 es s = s"
| "trim_left (Suc n) es s =
     (case strip_one es s of None \<Rightarrow> s | Some s' \<Rightarrow> trim_left n es s')"

definition TrimSpace :: "string \<Rightarrow> string" where
  "TrimSpace s =
     (let l = trim_left (length s) space_encodings s
      in rev (trim_left (length l) (map rev space_encodings) (rev l)))"

definition TrimPrefix :: "string \<Rightarrow> string \<Rightarrow> string" where
  "TrimPrefix s p = (if take (length p) s = p then drop (length p) s else s)"

fun HasPrefix :: "string \<Rightarrow> string \<Rightarrow> bool" where
  "HasPrefix s [] = True"
| "HasPrefix [] (c # p) = False"
| "HasPrefix (d # s) (c # p) = (d = c \<and> HasPrefix s p)"

fun Contains :: "string \<Rightarrow> string \<Rightarrow> bool" where
  "Contains [] sub = (sub = [])"
| "Contains (c # s) sub = (HasPrefix (c # s) sub \<or> Contains s sub)"

section \<open>Protocol types of the launcher package\<close>

record SearchResult =
  Name :: string
  Description :: string
  IconName :: string

text \<open>The \<^verbatim>\<open>request\<close> struct: four optional fields, any of which may be present.\<close>

record request =
  Search :: "string option"
  Activate :: "32 word option"
  Complete :: "32 word option"
  Context :: "32 word option"

text \<open>
  The lines written to the output stream. \<open>Append\<close> is \<^verbatim>\<open>appendResponse\<close>: id, name,
  description and the icon name, absent when no icon is sent.
\<close>

datatype reply =
    Finished
  | Clear
  | Close
  | Append (rid: "32 word") (rname: string) (rdescription: string) (ricon: "string option")

text \<open>
  Each written line is recorded with the goroutine that wrote it: the command loop or the
  search goroutine with a given number (goroutines are numbered in spawn order).
\<close>

datatype origin = Loop | Task nat

datatype log_entry =
    LInvalidConfig string
  | LReceived string
  | LExiting
  | LInterrupted
  | LWritten reply
  | LParseFailed string
  | LUnhandled string
  | LSearchFailed string
  | LOutOfRange nat nat
  | LActivateFailed string

section \<open>The callbacks\<close>

text \<open>
  \<^verbatim>\<open>OnSearch(ctx, query, appendResult)\<close> is foreign code that runs inside the search
  goroutine. It is modelled by its interaction with the engine: from a private state and
  the current value of \<^verbatim>\<open>ctx.Err() != nil\<close> it either calls \<^verbatim>\<open>appendResult\<close> once and
  goes on, takes an internal step (which includes waiting), or returns with an optional
  error. The initial private state may depend on the number of the call and the query.
\<close>

datatype 'p pstep =
    Emit SearchResult 'p
  | Internal 'p
  | Return "string option"

record 'p provider =
  start :: "nat \<Rightarrow> string \<Rightarrow> 'p"
  next_step :: "'p \<Rightarrow> bool \<Rightarrow> 'p pstep"

text \<open>
  \<^verbatim>\<open>OnActivate(entry)\<close> returns an optional error; the result may depend on how many
  calls came before.
\<close>

type_synonym handler = "nat \<Rightarrow> string \<Rightarrow> string option"

record 'p Config =
  Stdin :: "string list option"
  Stdout :: "nat option"
  Logger :: "nat option"
  OnSearch :: "'p provider option"
  OnActivate :: "handler option"

text \<open>
  What \<^verbatim>\<open>Run\<close> holds after a successful \<^verbatim>\<open>LoadConfig\<close>, together with
  \<^verbatim>\<open>json.Unmarshal\<close> into a \<^verbatim>\<open>request\<close>, a library function taken as a parameter
  (\<open>None\<close> is a decoding error).
\<close>

record 'p engine =
  Unmarshal :: "string \<Rightarrow> request option"
  onSearch :: "'p provider"
  onActivate :: handler

section \<open>State of one call of Run\<close>

text \<open>Where a search goroutine stands.\<close>

datatype 'p tpc =
    TClear
  | TCall 'p
  | TPublish
  | TFinish
  | TClose
  | TEnded

record 'p task =
  query :: string
  cancelled :: bool
  pc :: "'p tpc"
  matched :: "string list"

text \<open>What the command loop does once \<^verbatim>\<open>cancelSearch\<close> has returned.\<close>

datatype cont =
    KExit
  | KInterrupt bool
  | KSearch string
  | KActivate "32 word"

text \<open>
  The command loop is reading the next line, is blocked in \<^verbatim>\<open>cancelSearch\<close> on the done
  channel of a goroutine, or has returned.
\<close>

datatype mpc =
    MRead
  | MWait nat cont
  | MDone

record 'p state =
  requests :: "string list"
  written :: "(origin \<times> reply) list"
  lastResults :: "string list"
  searchCancel :: "nat option"
  tasks :: "'p task list"
  mainpc :: mpc
  activated :: "string list"
  searched :: "string list"
  logs :: "log_entry list"

definition logf :: "log_entry \<Rightarrow> 'p state \<Rightarrow> 'p state" where
  "logf e s = s\<lparr>logs := logs s @ [e]\<rparr>"

text \<open>\<^verbatim>\<open>respond\<close> and \<^verbatim>\<open>respondRaw\<close>: under the output lock, log the line and write it.\<close>

definition respond :: "origin \<Rightarrow> reply \<Rightarrow> 'p state \<Rightarrow> 'p state" where
  "respond who r s = s\<lparr>written := written s @ [(who, r)], logs := logs s @ [LWritten r]\<rparr>"

definition respondRaw :: "origin \<Rightarrow> reply \<Rightarrow> 'p state \<Rightarrow> 'p state" where
  "respondRaw who r s = s\<lparr>written := written s @ [(who, r)], logs := logs s @ [LWritten r]\<rparr>"


definition init :: "string list \<Rightarrow> 'p state" where
  "init lines =
     \<lparr>requests = lines, written = [], lastResults = [], searchCancel = None, tasks = [],
      mainpc = MRead, activated = [], searched = [], logs = []\<rparr>"

section \<open>The command loop\<close>

definition ended :: "'p task \<Rightarrow> bool" where
  "ended t = (case pc t of TEnded \<Rightarrow> True | _ \<Rightarrow> False)"

text \<open>
  The \<^verbatim>\<open>Search\<close> case after \<^verbatim>\<open>cancelSearch\<close>: a fresh context and done channel, kept in
  \<^verbatim>\<open>searchCancel\<close> and \<^verbatim>\<open>searchDone\<close>, and a new goroutine.
\<close>

definition start_search :: "string \<Rightarrow> 'p state \<Rightarrow> 'p state" where
  "start_search q s =
     s\<lparr>tasks := tasks s @ [\<lparr>query = q, cancelled = False, pc = TClear, matched = []\<rparr>],
       searchCancel := Some (length (tasks s))\<rparr>"

text \<open>
  The \<^verbatim>\<open>Activate\<close> case after \<^verbatim>\<open>cancelSearch\<close>. \<^verbatim>\<open>int(*req.Activate)\<close> is the value of
  the unsigned 32-bit index (an \<^verbatim>\<open>int\<close> of 64 bits holds it).
\<close>

definition do_activate :: "'p engine \<Rightarrow> 32 word \<Rightarrow> 'p state \<Rightarrow> 'p state" where
  "do_activate E i s =
     (let id = unat i in
      if id < length (lastResults s) then
        (let entry = lastResults s ! id;
             s1 = s\<lparr>activated := activated s @ [entry]\<rparr>;
             s2 = (case onActivate E (length (activated s)) entry of
                     None \<Rightarrow> s1
                   | Some err \<Rightarrow> logf (LActivateFailed err) s1)
         in respondRaw Loop Close s2)
      else respondRaw Loop Close (logf (LOutOfRange id (length (lastResults s))) s))"

fun resume :: "'p engine \<Rightarrow> cont \<Rightarrow> 'p state \<Rightarrow> 'p state" where
  "resume E KExit s = (respondRaw Loop Finished s)\<lparr>mainpc := MDone\<rparr>"
| "resume E (KInterrupt wasSearching) s =
     (if \<not> wasSearching then respondRaw Loop Finished s else s)\<lparr>mainpc := MRead\<rparr>"
| "resume E (KSearch q) s = (start_search q s)\<lparr>mainpc := MRead\<rparr>"
| "resume E (KActivate i) s = (do_activate E i s)\<lparr>mainpc := MRead\<rparr>"

text \<open>
  \<^verbatim>\<open>cancelSearch\<close>: with no search recorded it returns at once; otherwise it cancels the
  context and blocks on the done channel.
\<close>

definition cancelSearch :: "'p engine \<Rightarrow> cont \<Rightarrow> 'p state \<Rightarrow> 'p state" where
  "cancelSearch E k s =
     (case searchCancel s of
        None \<Rightarrow> resume E k s
      | Some j \<Rightarrow>
          s\<lparr>tasks := (tasks s)[j := (tasks s ! j)\<lparr>cancelled := True\<rparr>], mainpc := MWait j k\<rparr>)"

text \<open>
  The blocked receive \<^verbatim>\<open><-searchDone\<close>: it returns once the goroutine has closed the
  channel; then both variables are reset and the command goes on.
\<close>

definition join :: "'p engine \<Rightarrow> nat \<Rightarrow> cont \<Rightarrow> 'p state \<Rightarrow> 'p state" where
  "join E j k s =
     (if j < length (tasks s) \<and> ended (tasks s ! j)
      then resume E k (s\<lparr>searchCancel := None\<rparr>)
      else s)"

definition dispatch :: "'p engine \<Rightarrow> string \<Rightarrow> 'p state \<Rightarrow> 'p state" where
  "dispatch E line s =
     (let trimmed = TrimSpace line in
      if trimmed = exit_literal then cancelSearch E KExit (logf LExiting s)
      else if trimmed = interrupt_literal then
        (let s1 = logf LInterrupted s
         in cancelSearch E (KInterrupt (searchCancel s1 \<noteq> None)) s1)
      else
        (case Unmarshal E line of
           None \<Rightarrow> logf (LParseFailed line) s
         | Some req \<Rightarrow>
             (case Search req of
                Some q \<Rightarrow> cancelSearch E (KSearch q) s
              | None \<Rightarrow>
                  (case Activate req of
                     Some i \<Rightarrow> cancelSearch E (KActivate i) s
                   | None \<Rightarrow> logf (LUnhandled line) s))))"

text \<open>
  One step of the goroutine that runs \<^verbatim>\<open>for line := range requests\<close>: take the next line
  and handle it up to the point where it blocks, or leave \<^verbatim>\<open>cancelSearch\<close> and finish the
  command. With no line left the loop ends and \<^verbatim>\<open>Run\<close> returns.
\<close>

definition loop_step :: "'p engine \<Rightarrow> 'p state \<Rightarrow> 'p state" where
  "loop_step E s =
     (case mainpc s of
        MDone \<Rightarrow> s
      | MWait j k \<Rightarrow> join E j k s
      | MRead \<Rightarrow>
          (case requests s of
             [] \<Rightarrow> s\<lparr>mainpc := MDone\<rparr>
           | line # rest \<Rightarrow> dispatch E line (logf (LReceived line) (s\<lparr>requests := rest\<rparr>))))"

section \<open>The search goroutine\<close>

definition set_pc :: "nat \<Rightarrow> 'p tpc \<Rightarrow> 'p state \<Rightarrow> 'p state" where
  "set_pc j c s = s\<lparr>tasks := (tasks s)[j := (tasks s ! j)\<lparr>pc := c\<rparr>]\<rparr>"

text \<open>
  The closure \<^verbatim>\<open>appendResult\<close>: the id is \<^verbatim>\<open>uint32(len(matched))\<close>, the icon is sent only
  for a non-empty name, and the label joins \<^verbatim>\<open>matched\<close>.
\<close>

definition appendResult :: "nat \<Rightarrow> SearchResult \<Rightarrow> 'p state \<Rightarrow> 'p state" where
  "appendResult j sr s =
     (let t = tasks s ! j;
          icon = (if IconName sr \<noteq> [] then Some (IconName sr) else None);
          s1 = respond (Task j)
                 (Append (of_nat (length (matched t))) (Name sr) (Description sr) icon) s
      in s1\<lparr>tasks := (tasks s1)[j := t\<lparr>matched := matched t @ [Name sr]\<rparr>]\<rparr>)"

text \<open>
  One step of search goroutine \<open>j\<close>: write \<^verbatim>\<open>Clear\<close> and enter the callback; let the
  callback move; after its return store \<^verbatim>\<open>matched\<close> in \<^verbatim>\<open>lastResults\<close>; then the two
  deferred calls, \<^verbatim>\<open>respondRaw(`"Finished"`)\<close> and \<^verbatim>\<open>close(done)\<close>.
\<close>

definition task_step :: "'p engine \<Rightarrow> nat \<Rightarrow> 'p state \<Rightarrow> 'p state" where
  "task_step E j s =
     (if j < length (tasks s) then
        (let t = tasks s ! j in
         case pc t of
           TClear \<Rightarrow>
             set_pc j (TCall (start (onSearch E) j (query t)))
               ((respondRaw (Task j) Clear s)\<lparr>searched := searched s @ [query t]\<rparr>)
         | TCall p \<Rightarrow>
             (case next_step (onSearch E) p (cancelled t) of
                Emit sr p' \<Rightarrow> set_pc j (TCall p') (appendResult j sr s)
              | Internal p' \<Rightarrow> set_pc j (TCall p') s
              | Return err \<Rightarrow>
                  set_pc j TPublish
                    (case err of None \<Rightarrow> s | Some e \<Rightarrow> logf (LSearchFailed e) s))
         | TPublish \<Rightarrow> set_pc j TFinish (s\<lparr>lastResults := matched t\<rparr>)
         | TFinish \<Rightarrow> set_pc j TClose (respondRaw (Task j) Finished s)
         | TClose \<Rightarrow> set_pc j TEnded s
         | TEnded \<Rightarrow> s)
      else s)"

section \<open>Interleavings\<close>

text \<open>
  A schedule names, step by step, the goroutine that moves. A goroutine that cannot move
  (blocked, ended or not yet spawned) leaves the state as it is.
\<close>

datatype thread = MainT | TaskT nat

fun step :: "'p engine \<Rightarrow> thread \<Rightarrow> 'p state \<Rightarrow> 'p state" where
  "step E MainT s = loop_step E s"
| "step E (TaskT j) s = task_step E j s"

definition exec :: "'p engine \<Rightarrow> thread list \<Rightarrow> 'p state \<Rightarrow> 'p state" where
  "exec E sched s = fold (step E) sched s"

section \<open>LoadConfig and Run\<close>

datatype logger = Discard | UserLogger nat

datatype sink = OsStdout | UserWriter nat

text \<open>
  \<^verbatim>\<open>LoadConfig\<close> on a receiver that may be nil. The logger is returned in every case; the
  streams come with a nil error only. \<open>os_stdin\<close> stands for the lines of \<^verbatim>\<open>os.Stdin\<close>.
\<close>

definition LoadConfig ::
  "string list \<Rightarrow> 'p Config option \<Rightarrow> logger \<times> (string + string list \<times> sink)" where
  "LoadConfig os_stdin c =
     (case c of
        None \<Rightarrow> (Discard, Inl ''config is nil'')
      | Some cfg \<Rightarrow>
          (let l = (case Logger cfg of None \<Rightarrow> Discard | Some n \<Rightarrow> UserLogger n) in
           if OnSearch cfg = None then (l, Inl ''config OnSearch callback is required'')
           else if OnActivate cfg = None then (l, Inl ''config OnActivate callback is required'')
           else (l, Inr (case Stdin cfg of None \<Rightarrow> os_stdin | Some r \<Rightarrow> r,
                         case Stdout cfg of None \<Rightarrow> OsStdout | Some w \<Rightarrow> UserWriter w))))"

text \<open>
  \<^verbatim>\<open>Run(cfg)\<close> under a schedule. The result pairs the logger with the state reached; in the
  state, \<open>requests\<close> are the lines of the input stream not read, \<open>written\<close> the lines put
  on the output stream and \<open>logs\<close> the calls made on the logger. With an invalid
  configuration no stream is bound: the input is the one the configuration names.
\<close>

definition Run ::
  "(string \<Rightarrow> request option) \<Rightarrow> string list \<Rightarrow> 'p Config \<Rightarrow> thread list
     \<Rightarrow> logger \<times> 'p state" where
  "Run um os_stdin cfg sched =
     (case LoadConfig os_stdin (Some cfg) of
        (l, Inl err) \<Rightarrow>
          (l, logf (LInvalidConfig err)
                ((init (case Stdin cfg of None \<Rightarrow> os_stdin | Some r \<Rightarrow> r))\<lparr>mainpc := MDone\<rparr>))
      | (l, Inr (stdin, stdout)) \<Rightarrow>
          (l, exec \<lparr>Unmarshal = um, onSearch = the (OnSearch cfg),
                    onActivate = the (OnActivate cfg)\<rparr> sched (init stdin)))"

section \<open>Reading an output trace\<close>

definition task_lines :: "nat \<Rightarrow> (origin \<times> reply) list \<Rightarrow> reply list" where
  "task_lines j out = map snd (filter (\<lambda>x. fst x = Task j) out)"

definition loop_lines :: "(origin \<times> reply) list \<Rightarrow> reply list" where
  "loop_lines out = map snd (filter (\<lambda>x. fst x = Loop) out)"

text \<open>The numbers of the goroutines that wrote, in the order of their lines.\<close>

fun task_ids :: "(origin \<times> reply) list \<Rightarrow> nat list" where
  "task_ids [] = []"
| "task_ids ((Task j, r) # out) = j # task_ids out"
| "task_ids ((Loop, r) # out) = task_ids out"

fun is_append :: "reply \<Rightarrow> bool" where
  "is_append (Append i n d ic) = True"
| "is_append r = False"

text \<open>
  \<open>appends_from n rs ms\<close>: the lines \<open>rs\<close> are \<open>Append\<close>s, one per label of \<open>ms\<close> in order,
  the first with the 32-bit id of \<open>n\<close>, each next with the id of the next number.
\<close>

fun appends_from :: "nat \<Rightarrow> reply list \<Rightarrow> string list \<Rightarrow> bool" where
  "appends_from n [] [] = True"
| "appends_from n (Append i nm d ic # rs) (m # ms) =
     (i = of_nat n \<and> nm = m \<and> appends_from (Suc n) rs ms)"
| "appends_from n rs ms = False"

text \<open>
  The lines one search goroutine has written, by where it stands: nothing before
  \<^verbatim>\<open>Clear\<close>; then \<^verbatim>\<open>Clear\<close> and the \<open>Append\<close>s of \<open>matched\<close>; after the deferred
  \<^verbatim>\<open>respondRaw\<close> the same followed by one \<^verbatim>\<open>Finished\<close>.
\<close>

definition block_open :: "reply list \<Rightarrow> string list \<Rightarrow> bool" where
  "block_open ls ms = (case ls of Clear # as \<Rightarrow> appends_from 0 as ms | _ \<Rightarrow> False)"

definition block_closed :: "reply list \<Rightarrow> string list \<Rightarrow> bool" where
  "block_closed ls ms =
     (case ls of
        Clear # rest \<Rightarrow> rest \<noteq> [] \<and> last rest = Finished \<and> appends_from 0 (butlast rest) ms
      | _ \<Rightarrow> False)"

definition block_ok :: "'p task \<Rightarrow> reply list \<Rightarrow> bool" where
  "block_ok t ls =
     (case pc t of
        TClear \<Rightarrow> ls = [] \<and> matched t = []
      | TCall p \<Rightarrow> block_open ls (matched t)
      | TPublish \<Rightarrow> block_open ls (matched t)
      | TFinish \<Rightarrow> block_open ls (matched t)
      | TClose \<Rightarrow> block_closed ls (matched t)
      | TEnded \<Rightarrow> block_closed ls (matched t))"

definition published :: "'p task \<Rightarrow> bool" where
  "published t = (case pc t of TFinish \<Rightarrow> True | TClose \<Rightarrow> True | TEnded \<Rightarrow> True | _ \<Rightarrow> False)"

text \<open>The labels of the last goroutine that has stored its \<open>matched\<close>, if any.\<close>

fun last_published :: "'p task list \<Rightarrow> string list" where
  "last_published [] = []"
| "last_published (t # ts) =
     (if \<exists>u \<in> set ts. published u then last_published ts
      else if published t then matched t else [])"

section \<open>Invariants of the reachable states\<close>

definition inv_alive :: "'p state \<Rightarrow> bool" where
  "inv_alive s \<longleftrightarrow>
     (\<forall>j. Suc j < length (tasks s) \<longrightarrow> ended (tasks s ! j)) \<and>
     (case searchCancel s of
        None \<Rightarrow> (\<forall>j < length (tasks s). ended (tasks s ! j))
      | Some j \<Rightarrow> Suc j = length (tasks s)) \<and>
     (case mainpc s of MWait j k \<Rightarrow> searchCancel s = Some j | _ \<Rightarrow> True)"

definition inv_tags :: "'p state \<Rightarrow> bool" where
  "inv_tags s \<longleftrightarrow> (\<forall>j \<in> set (task_ids (written s)). j < length (tasks s))"

definition inv_shape :: "'p state \<Rightarrow> bool" where
  "inv_shape s \<longleftrightarrow>
     (\<forall>j < length (tasks s). block_ok (tasks s ! j) (task_lines j (written s)))"

definition inv_order :: "'p state \<Rightarrow> bool" where
  "inv_order s \<longleftrightarrow> sorted (task_ids (written s))"

definition inv_table :: "'p state \<Rightarrow> bool" where
  "inv_table s \<longleftrightarrow> lastResults s = last_published (tasks s)"

definition inv_rest :: "'p state \<Rightarrow> bool" where
  "inv_rest s \<longleftrightarrow> inv_tags s \<and> inv_shape s \<and> inv_order s \<and> inv_table s"

definition inv :: "'p state \<Rightarrow> bool" where
  "inv s \<longleftrightarrow> inv_alive s \<and> inv_rest s"

text \<open>No search is recorded and every goroutine spawned so far has ended.\<close>

definition quiet :: "'p state \<Rightarrow> bool" where
  "quiet s \<longleftrightarrow> searchCancel s = None \<and> (\<forall>j < length (tasks s). ended (tasks s ! j))"

text \<open>The line, if any, that the next step of a search goroutine writes.\<close>

definition task_event :: "'p engine \<Rightarrow> 'p task \<Rightarrow> reply list" where
  "task_event E t =
     (case pc t of
        TClear \<Rightarrow> [Clear]
      | TCall p \<Rightarrow>
          (case next_step (onSearch E) p (cancelled t) of
             Emit sr p' \<Rightarrow>
               [Append (of_nat (length (matched t))) (Name sr) (Description sr)
                  (if IconName sr \<noteq> [] then Some (IconName sr) else None)]
           | _ \<Rightarrow> [])
      | TFinish \<Rightarrow> [Finished]
      | _ \<Rightarrow> [])"

section \<open>Particular runs\<close>

text \<open>The state after the command loop has handled a lone \<^verbatim>\<open>"Exit"\<close> line.\<close>

definition after_exit :: "'p state" where
  "after_exit =
     \<lparr>requests = [], written = [(Loop, Finished)], lastResults = [], searchCancel = None,
      tasks = [], mainpc = MDone, activated = [], searched = [],
      logs = [LReceived exit_literal, LExiting, LWritten Finished]\<rparr>"


section \<open>What a step of the command loop leaves alone\<close>

text \<open>
  The command loop writes only lines of its own, never changes where a goroutine stands
  or what it has matched, only adds goroutines, which start before their \<^verbatim>\<open>Clear\<close> with
  nothing matched, and never assigns \<^verbatim>\<open>lastResults\<close>.
\<close>

definition loop_frame :: "'p state \<Rightarrow> 'p state \<Rightarrow> bool" where
  "loop_frame s s' \<longleftrightarrow>
     (\<forall>j. task_lines j (written s') = task_lines j (written s)) \<and>
     task_ids (written s') = task_ids (written s) \<and>
     length (tasks s) \<le> length (tasks s') \<and>
     (\<forall>j < length (tasks s).
        pc (tasks s' ! j) = pc (tasks s ! j) \<and>
        matched (tasks s' ! j) = matched (tasks s ! j) \<and>
        query (tasks s' ! j) = query (tasks s ! j)) \<and>
     (\<forall>j. length (tasks s) \<le> j \<and> j < length (tasks s') \<longrightarrow>
        pc (tasks s' ! j) = TClear \<and> matched (tasks s' ! j) = []) \<and>
     lastResults s' = lastResults s \<and>
     searched s' = searched s"

section \<open>Fixtures of the test suite\<close>

text \<open>
  The request lines \<^verbatim>\<open>{"Search":"..."}\<close> and \<^verbatim>\<open>{"Activate":...}\<close> as the tests write them.
\<close>

definition search_line :: "string \<Rightarrow> string" where
  "search_line q =
     ''{'' @ [dquote] @ ''Search'' @ [dquote] @ '':'' @ [dquote] @ q @ [dquote] @ ''}''"

definition activate_line :: "string \<Rightarrow> string" where
  "activate_line digits = ''{'' @ [dquote] @ ''Activate'' @ [dquote] @ '':'' @ digits @ ''}''"

definition no_request :: request where
  "no_request = \<lparr>Search = None, Activate = None, Complete = None, Context = None\<rparr>"

text \<open>
  \<^verbatim>\<open>json.Unmarshal\<close> on the request lines of the test suite; every other line is taken
  as one that fails to decode, as \<^verbatim>\<open>not valid json at all\<close> does.
\<close>

definition test_Unmarshal :: "string \<Rightarrow> request option" where
  "test_Unmarshal l =
     (if l = search_line ''gp email'' then Some (no_request\<lparr>Search := Some ''gp email''\<rparr>)
      else if l = search_line ''q'' then Some (no_request\<lparr>Search := Some ''q''\<rparr>)
      else if l = search_line ''first'' then Some (no_request\<lparr>Search := Some ''first''\<rparr>)
      else if l = search_line ''second'' then Some (no_request\<lparr>Search := Some ''second''\<rparr>)
      else if l = search_line ''slow-query'' then Some (no_request\<lparr>Search := Some ''slow-query''\<rparr>)
      else if l = activate_line ''0'' then Some (no_request\<lparr>Activate := Some 0\<rparr>)
      else if l = activate_line ''1'' then Some (no_request\<lparr>Activate := Some 1\<rparr>)
      else if l = activate_line ''99'' then Some (no_request\<lparr>Activate := Some 99\<rparr>)
      else None)"

text \<open>The callback of \<^verbatim>\<open>TestSearchThenExit\<close>: two results, then a nil error.\<close>

definition email_results :: "SearchResult list" where
  "email_results =
     [\<lparr>Name = ''Email/personal'', Description = ''Email/personal'', IconName = ''dialog-password''\<rparr>,
      \<lparr>Name = ''Email/work'', Description = ''Email/work'', IconName = ''dialog-password''\<rparr>]"

definition listing :: "SearchResult list \<Rightarrow> SearchResult list provider" where
  "listing rs =
     \<lparr>start = (\<lambda>n q. rs),
      next_step = (\<lambda>p c. case p of [] \<Rightarrow> Return None | r # p' \<Rightarrow> Emit r p')\<rparr>"

text \<open>
  The callback of \<^verbatim>\<open>TestSearchInterruptCancelsContext\<close>: it waits for the context to be
  cancelled and returns the context's error.
\<close>

definition blocking :: "unit provider" where
  "blocking =
     \<lparr>start = (\<lambda>n q. ()),
      next_step = (\<lambda>p c. if c then Return (Some ''context canceled'') else Internal ())\<rparr>"

text \<open>A callback that appends one result and then fails, whatever the context says.\<close>

definition one_then_fail :: "bool provider" where
  "one_then_fail =
     \<lparr>start = (\<lambda>n q. False),
      next_step = (\<lambda>p c.
        if p then Return (Some ''backend failed'')
        else Emit \<lparr>Name = ''entry'', Description = ''desc'', IconName = []\<rparr> True)\<rparr>"

text \<open>A callback that never stops appending the same result.\<close>

definition flood :: "unit provider" where
  "flood =
     \<lparr>start = (\<lambda>n q. ()),
      next_step = (\<lambda>p c. Emit \<lparr>Name = ''x'', Description = ''d'', IconName = []\<rparr> ())\<rparr>"

text \<open>The handlers of the tests: one that succeeds, one that fails as in
  \<^verbatim>\<open>TestActivateCallbackError\<close>.\<close>

definition handler_ok :: handler where
  "handler_ok n entry = None"

definition handler_busy :: handler where
  "handler_busy n entry = Some ''paste failed: device busy''"

definition test_engine :: "'p provider \<Rightarrow> handler \<Rightarrow> 'p engine" where
  "test_engine p h = \<lparr>Unmarshal = test_Unmarshal, onSearch = p, onActivate = h\<rparr>"

text \<open>
  The run of \<^verbatim>\<open>TestSearchActivateExit\<close> with the second result activated, in the
  interleaving where the search finishes before the next line is handled.
\<close>

definition email_engine :: "SearchResult list engine" where
  "email_engine = test_engine (listing email_results) handler_ok"

definition email_lines :: "string list" where
  "email_lines = [search_line ''gp email'', activate_line ''1'', exit_literal]"

definition search_done :: "thread list" where
  "search_done = MainT # replicate 7 (TaskT 0)"



section \<open>Commands\<close>

text \<open>
  The command a line stands for, read off the tests the loop makes on it in their order:
  the two sentinels on the trimmed line, then the decoded request with \<^verbatim>\<open>Search\<close>
  before \<^verbatim>\<open>Activate\<close>.
\<close>

datatype command =
    CExit
  | CInterrupt
  | CSearch string
  | CActivate "32 word"
  | CUnrecognized
  | CMalformed

definition command_of :: "'p engine \<Rightarrow> string \<Rightarrow> command" where
  "command_of E line =
     (let trimmed = TrimSpace line in
      if trimmed = exit_literal then CExit
      else if trimmed = interrupt_literal then CInterrupt
      else
        (case Unmarshal E line of
           None \<Rightarrow> CMalformed
         | Some req \<Rightarrow>
             (case Search req of
                Some q \<Rightarrow> CSearch q
              | None \<Rightarrow> (case Activate req of Some i \<Rightarrow> CActivate i | None \<Rightarrow> CUnrecognized))))"

text \<open>The commands that call \<^verbatim>\<open>cancelSearch\<close> before anything else.\<close>

fun cancels_first :: "command \<Rightarrow> bool" where
  "cancels_first CUnrecognized = False"
| "cancels_first CMalformed = False"
| "cancels_first c = True"

text \<open>A search whose callback floods, and the goroutine left to run.\<close>

definition flood_engine :: "unit engine" where
  "flood_engine = test_engine flood handler_ok"

definition flood_sched :: "nat \<Rightarrow> thread list" where
  "flood_sched n = MainT # TaskT 0 # replicate n (TaskT 0)"

section \<open>Handling one command\<close>

text \<open>
  What the loop itself writes, and the labels it hands to \<^verbatim>\<open>OnActivate\<close>, when it goes on
  after \<^verbatim>\<open>cancelSearch\<close>; \<open>tbl\<close> is \<^verbatim>\<open>lastResults\<close> at that moment.
\<close>

fun loop_replies :: "cont \<Rightarrow> reply list" where
  "loop_replies KExit = [Finished]"
| "loop_replies (KInterrupt wasSearching) = (if wasSearching then [] else [Finished])"
| "loop_replies (KSearch q) = []"
| "loop_replies (KActivate i) = [Close]"

fun handler_calls :: "cont \<Rightarrow> string list \<Rightarrow> string list" where
  "handler_calls (KActivate i) tbl = (if unat i < length tbl then [tbl ! unat i] else [])"
| "handler_calls k tbl = []"

fun spawns :: "cont \<Rightarrow> bool" where
  "spawns (KSearch q) = True"
| "spawns k = False"

text \<open>
  The states met while the loop handles a command with continuation \<open>k\<close>, read in state
  \<open>s0\<close> with the lines \<open>rest\<close> after it: as long as no further line has been taken, the
  loop is either still blocked, having written nothing and called nothing, or it has gone
  on, has written \<open>loop_replies k\<close> and made \<open>handler_calls k\<close>, and no goroutine is left.
\<close>

definition handling :: "'p state \<Rightarrow> cont \<Rightarrow> string list \<Rightarrow> 'p state \<Rightarrow> bool" where
  "handling s0 k rest s \<longleftrightarrow>
     (requests s = rest \<or> length (requests s) < length rest) \<and>
     (requests s = rest \<longrightarrow>
        length (tasks s) = length (tasks s0) \<and>
        (((\<exists>j. mainpc s = MWait j k \<and> searchCancel s0 = Some j) \<and>
          loop_lines (written s) = loop_lines (written s0) \<and>
          activated s = activated s0) \<or>
         ((mainpc s = MRead \<or> mainpc s = MDone) \<and> quiet s \<and>
          loop_lines (written s) = loop_lines (written s0) @ loop_replies k \<and>
          activated s = activated s0 @ handler_calls k (lastResults s))))"

text \<open>The continuation of a command, given whether a search was recorded when it was read.\<close>

fun cont_of :: "command \<Rightarrow> bool \<Rightarrow> cont option" where
  "cont_of CExit w = Some KExit"
| "cont_of CInterrupt w = Some (KInterrupt w)"
| "cont_of (CSearch q) w = Some (KSearch q)"
| "cont_of (CActivate i) w = Some (KActivate i)"
| "cont_of c w = None"

section \<open>After the callback has returned\<close>

text \<open>Steps the goroutine still has to take, and the line it still has to write.\<close>

fun steps_left :: "'p tpc \<Rightarrow> nat" where
  "steps_left TPublish = 3"
| "steps_left TFinish = 2"
| "steps_left TClose = 1"
| "steps_left TEnded = 0"
| "steps_left c = 4"

fun pending :: "'p tpc \<Rightarrow> reply list" where
  "pending TPublish = [Finished]"
| "pending TFinish = [Finished]"
| "pending c = []"

fun returned :: "'p tpc \<Rightarrow> bool" where
  "returned TClear = False"
| "returned (TCall p) = False"
| "returned c = True"

text \<open>
  \<^verbatim>\<open>TestSearchInterruptCancelsContext\<close>: the search is inside its callback when the
  interrupt is read; afterwards the goroutine runs to its end and the loop goes on.
  \<^verbatim>\<open>TestInterruptWithoutActiveSearch\<close>: an interrupt and an exit.
\<close>

definition blocking_engine :: "unit engine" where
  "blocking_engine = test_engine blocking handler_ok"

definition interrupt_lines :: "string list" where
  "interrupt_lines = [search_line ''slow-query'', interrupt_literal, exit_literal]"

definition searching :: "thread list" where
  "searching = [MainT, TaskT 0, TaskT 0]"

definition finishing :: "thread list" where
  "finishing = replicate 4 (TaskT 0) @ [MainT]"

definition idle_lines :: "string list" where
  "idle_lines = [interrupt_literal, exit_literal]"

text \<open>
  \<^verbatim>\<open>TestActivateCallbackError\<close> and \<^verbatim>\<open>TestActivateOutOfRange\<close> on the two email results:
  the handler fails on every call.
\<close>

definition busy_engine :: "SearchResult list engine" where
  "busy_engine = test_engine (listing email_results) handler_busy"

definition out_of_range_lines :: "string list" where
  "out_of_range_lines = [search_line ''gp email'', activate_line ''99'', exit_literal]"

text \<open>A search whose callback fails after one result, followed by an activation.\<close>

definition failing_engine :: "bool engine" where
  "failing_engine = test_engine one_then_fail handler_ok"

definition failing_lines :: "string list" where
  "failing_lines = [search_line ''q'', activate_line ''0'', exit_literal]"

definition about_to_fail :: "thread list" where
  "about_to_fail = [MainT, TaskT 0, TaskT 0]"

definition wind_up :: "thread list" where
  "wind_up = replicate 3 (TaskT 0)"

section \<open>The gopass application\<close>

definition maxResults :: nat where
  "maxResults = 19"

text \<open>
  \<^verbatim>\<open>loadEntries\<close> of the launcher-based \<^verbatim>\<open>main\<close>: a Go map from the lower-cased line to
  the line, a later line replacing an earlier one with the same key; nil, that is empty,
  when \<^verbatim>\<open>gopass ls\<close> fails (\<open>None\<close>). The map is kept as an association list with
  distinct keys. \<^verbatim>\<open>strings.ToLower\<close> is a parameter.
\<close>

definition loadEntries :: "(string \<Rightarrow> string) \<Rightarrow> string list option \<Rightarrow> (string \<times> string) list" where
  "loadEntries ToLower out =
     (case out of
        None \<Rightarrow> []
      | Some lines \<Rightarrow>
          fold (\<lambda>line entries. if line \<noteq> [] then AList.update (ToLower line) line entries else entries)
            lines [])"

definition password_result :: "string \<Rightarrow> SearchResult" where
  "password_result entry =
     \<lparr>Name = entry, Description = ''Copy password to clipboard'', IconName = ''dialog-password''\<rparr>"

text \<open>
  The \<^verbatim>\<open>OnSearch\<close> closure of \<^verbatim>\<open>main\<close>. Its private state: before the lookup of the exact
  match; inside \<^verbatim>\<open>for lower, original := range allEntries\<close> with the pairs still to visit
  and \<^verbatim>\<open>count\<close>; after \<^verbatim>\<open>break\<close>. Go visits a map in an order of its choice, new for every
  \<^verbatim>\<open>range\<close>: \<open>range_order n\<close> is the order taken by call number \<open>n\<close>.
\<close>

datatype gstate =
    GStart nat string
  | GScan string "(string \<times> string) list" nat
  | GBreak

fun gopass_step ::
  "(string \<Rightarrow> string) \<Rightarrow> (string \<times> string) list \<Rightarrow> (nat \<Rightarrow> (string \<times> string) list)
     \<Rightarrow> gstate \<Rightarrow> bool \<Rightarrow> gstate pstep" where
  "gopass_step ToLower allEntries range_order (GStart n qry) ctx_err =
     (let lowerQuery = ToLower (TrimPrefix qry ''gp '') in
      case map_of allEntries lowerQuery of
        Some exactMatch \<Rightarrow> Emit (password_result exactMatch) (GScan lowerQuery (range_order n) 0)
      | None \<Rightarrow> Internal (GScan lowerQuery (range_order n) 0))"
| "gopass_step ToLower allEntries range_order (GScan lowerQuery [] count) ctx_err = Return None"
| "gopass_step ToLower allEntries range_order (GScan lowerQuery ((lower, original) # rest) count)
     ctx_err =
     (if lower = lowerQuery then Internal (GScan lowerQuery rest count)
      else if ctx_err then Return (Some ''context canceled'')
      else if lowerQuery = [] \<or> Contains lower lowerQuery then
        Emit (password_result original)
          (if maxResults \<le> count + 1 then GBreak else GScan lowerQuery rest (count + 1))
      else Internal (GScan lowerQuery rest count))"
| "gopass_step ToLower allEntries range_order GBreak ctx_err = Return None"

definition gopass_OnSearch ::
  "(string \<Rightarrow> string) \<Rightarrow> (string \<times> string) list \<Rightarrow> (nat \<Rightarrow> (string \<times> string) list)
     \<Rightarrow> gstate provider" where
  "gopass_OnSearch ToLower allEntries range_order =
     \<lparr>start = GStart, next_step = gopass_step ToLower allEntries range_order\<rparr>"

text \<open>
  \<^verbatim>\<open>launcher.Run\<close> as \<^verbatim>\<open>main\<close> calls it: the entries loaded once, the closure above, and
  an \<^verbatim>\<open>OnActivate\<close> that runs external programs, left open.
\<close>

definition gopass_engine ::
  "(string \<Rightarrow> request option) \<Rightarrow> (string \<Rightarrow> string) \<Rightarrow> string list option
     \<Rightarrow> (nat \<Rightarrow> (string \<times> string) list) \<Rightarrow> handler \<Rightarrow> gstate engine" where
  "gopass_engine um ToLower out range_order h =
     \<lparr>Unmarshal = um,
      onSearch = gopass_OnSearch ToLower (loadEntries ToLower out) range_order,
      onActivate = h\<rparr>"

text \<open>An order in which a \<^verbatim>\<open>range\<close> may visit the map: every pair once.\<close>

definition visits :: "(string \<times> string) list \<Rightarrow> (string \<times> string) list \<Rightarrow> bool" where
  "visits allEntries order \<longleftrightarrow> distinct (map fst order) \<and> set order = set allEntries"

subsection \<open>The search loop of the older inline engine\<close>

record entry =
  original :: string
  lower :: string

text \<open>
  The body of the search goroutine of the first \<^verbatim>\<open>main.go\<close> after \<^verbatim>\<open>Clear\<close>: the lines it
  writes and the \<^verbatim>\<open>matched\<close> it stores in \<^verbatim>\<open>lastResults\<close>. \<open>ctx_err i\<close> tells whether the
  context is found cancelled at the iteration numbered \<open>i\<close>.
\<close>

fun inline_search ::
  "(nat \<Rightarrow> bool) \<Rightarrow> string \<Rightarrow> nat \<Rightarrow> entry list \<Rightarrow> reply list \<Rightarrow> string list
     \<Rightarrow> reply list \<times> string list" where
  "inline_search ctx_err lowerQuery i [] out so_far = (out, so_far)"
| "inline_search ctx_err lowerQuery i (e # es) out so_far =
     (if ctx_err i then (out, so_far)
      else if lowerQuery = [] \<or> Contains (lower e) lowerQuery then
        (let out' = out @ [Append (of_nat (length so_far)) (original e)
                             ''Copy password to clipboard'' (Some ''dialog-password'')];
             so_far' = so_far @ [original e]
         in if maxResults \<le> length so_far' then (out', so_far')
            else inline_search ctx_err lowerQuery (Suc i) es out' so_far')
      else inline_search ctx_err lowerQuery (Suc i) es out so_far)"

subsection \<open>What holds of a gopass search goroutine\<close>

text \<open>The lower-cased query of a goroutine, and the exact match, if the map has one.\<close>

definition lowerQuery_of :: "(string \<Rightarrow> string) \<Rightarrow> 'p task \<Rightarrow> string" where
  "lowerQuery_of ToLower t = ToLower (TrimPrefix (query t) ''gp '')"

definition exact_of :: "(string \<Rightarrow> string) \<Rightarrow> (string \<times> string) list \<Rightarrow> 'p task \<Rightarrow> string list" where
  "exact_of ToLower allEntries t =
     (case map_of allEntries (lowerQuery_of ToLower t) of Some e \<Rightarrow> [e] | None \<Rightarrow> [])"

text \<open>The labels appended by the scan: \<^verbatim>\<open>matched\<close> without the exact match in front.\<close>

definition scanned_of :: "(string \<Rightarrow> string) \<Rightarrow> (string \<times> string) list \<Rightarrow> 'p task \<Rightarrow> string list" where
  "scanned_of ToLower allEntries t = drop (length (exact_of ToLower allEntries t)) (matched t)"

text \<open>Has the callback done its first step, the lookup of the exact match?\<close>

fun looked_up :: "gstate tpc \<Rightarrow> bool" where
  "looked_up TClear = False"
| "looked_up (TCall (GStart n q)) = False"
| "looked_up c = True"

definition scanned_ok ::
  "(string \<Rightarrow> string) \<Rightarrow> (string \<times> string) list \<Rightarrow> gstate task \<Rightarrow> bool" where
  "scanned_ok ToLower allEntries t \<longleftrightarrow>
     matched t = exact_of ToLower allEntries t @ scanned_of ToLower allEntries t \<and>
     distinct (scanned_of ToLower allEntries t) \<and>
     (\<forall>v \<in> set (scanned_of ToLower allEntries t).
        (ToLower v, v) \<in> set allEntries \<and> ToLower v \<noteq> lowerQuery_of ToLower t \<and>
        (lowerQuery_of ToLower t = [] \<or> Contains (ToLower v) (lowerQuery_of ToLower t)))"

definition gp_ok ::
  "(string \<Rightarrow> string) \<Rightarrow> (string \<times> string) list \<Rightarrow> gstate task \<Rightarrow> bool" where
  "gp_ok ToLower allEntries t =
     (case pc t of
        TClear \<Rightarrow> matched t = []
      | TCall (GStart n q) \<Rightarrow> q = query t \<and> matched t = []
      | TCall (GScan lq todo count) \<Rightarrow>
          lq = lowerQuery_of ToLower t \<and> distinct (map fst todo) \<and>
          set todo \<subseteq> set allEntries \<and> scanned_ok ToLower allEntries t \<and>
          (\<forall>v \<in> set (scanned_of ToLower allEntries t). ToLower v \<notin> fst ` set todo)
      | _ \<Rightarrow> scanned_ok ToLower allEntries t)"

text \<open>
  Counting: during the scan \<^verbatim>\<open>matched\<close> holds the exact match, if any, and \<^verbatim>\<open>count\<close>
  further labels, with \<^verbatim>\<open>count\<close> below \<open>maxResults\<close>.
\<close>

definition gp_count ::
  "(string \<Rightarrow> string) \<Rightarrow> (string \<times> string) list \<Rightarrow> gstate task \<Rightarrow> bool" where
  "gp_count ToLower allEntries t =
     (case pc t of
        TClear \<Rightarrow> matched t = []
      | TCall (GStart n q) \<Rightarrow> q = query t \<and> matched t = []
      | TCall (GScan lq todo count) \<Rightarrow>
          count < maxResults \<and>
          length (matched t) = length (exact_of ToLower allEntries t) + count
      | _ \<Rightarrow> length (matched t) \<le> length (exact_of ToLower allEntries t) + maxResults)"

subsection \<open>A small password store\<close>

text \<open>\<^verbatim>\<open>strings.ToLower\<close> on ASCII text.\<close>

definition ascii_lower :: "string \<Rightarrow> string" where
  "ascii_lower s =
     map (\<lambda>c. if 65 \<le> (of_char c :: nat) \<and> (of_char c :: nat) \<le> 90
              then char_of ((of_char c :: nat) + 32) else c) s"

definition store_lines :: "string list" where
  "store_lines = [''Email/personal'', ''Email/work'', ''Q'', ''q/sub'']"

definition store_order :: "nat \<Rightarrow> (string \<times> string) list" where
  "store_order n =
     (if even n then loadEntries ascii_lower (Some store_lines)
      else rev (loadEntries ascii_lower (Some store_lines)))"

definition store_engine :: "gstate engine" where
  "store_engine = gopass_engine test_Unmarshal ascii_lower (Some store_lines) store_order handler_ok"

definition store_search :: "string list" where
  "store_search = [search_line ''q'', exit_literal]"

definition store_sched :: "thread list" where
  "store_sched = MainT # replicate 10 (TaskT 0)"

section \<open>A search that has already answered\<close>

text \<open>Has the goroutine run its deferred \<^verbatim>\<open>respondRaw(`"Finished"`)\<close>?\<close>

fun wrote_finished :: "'p tpc \<Rightarrow> bool" where
  "wrote_finished TClose = True"
| "wrote_finished TEnded = True"
| "wrote_finished c = False"

text \<open>Every goroutine spawned so far has written its \<^verbatim>\<open>Finished\<close>: none has a line left.\<close>

definition silent :: "'p state \<Rightarrow> bool" where
  "silent s \<longleftrightarrow> (\<forall>j < length (tasks s). wrote_finished (pc (tasks s ! j)))"

text \<open>
  \<^verbatim>\<open>TestSearchThenExit\<close> with an interrupt put before the exit: the interrupt is read
  after the search has finished by itself.
\<close>

definition late_interrupt :: "string list" where
  "late_interrupt = [search_line ''gp email'', interrupt_literal, exit_literal]"

section \<open>Basic facts about traces\<close>

lemma task_lines_snoc:
  "task_lines j (out @ [(w, r)]) = task_lines j out @ (if w = Task j then [r] else [])"
  by (simp add: task_lines_def)

lemma loop_lines_snoc:
  "loop_lines (out @ [(w, r)]) = loop_lines out @ (if w = Loop then [r] else [])"
  by (simp add: loop_lines_def)

lemma task_ids_append: "task_ids (xs @ ys) = task_ids xs @ task_ids ys"
  by (induction xs rule: task_ids.induct) simp_all

lemma task_ids_snoc:
  "task_ids (out @ [(w, r)]) = task_ids out @ (case w of Task j \<Rightarrow> [j] | Loop \<Rightarrow> [])"
  by (cases w) (simp_all add: task_ids_append)

lemma task_lines_no_tag: "j \<notin> set (task_ids out) \<Longrightarrow> task_lines j out = []"
  by (induction out rule: task_ids.induct) (auto simp: task_lines_def)

lemma appends_from_snoc:
  "appends_from n as ms \<Longrightarrow>
   appends_from n (as @ [Append (of_nat (n + length ms)) x d ic]) (ms @ [x])"
  by (induction n as ms rule: appends_from.induct) simp_all

lemma appends_from_length: "appends_from n as ms \<Longrightarrow> length as = length ms"
  by (induction n as ms rule: appends_from.induct) simp_all

lemma appends_from_all: "appends_from n as ms \<Longrightarrow> \<forall>a \<in> set as. is_append a"
  by (induction n as ms rule: appends_from.induct) simp_all

lemma appends_from_nth:
  "appends_from n as ms \<Longrightarrow> i < length as \<Longrightarrow>
   rid (as ! i) = of_nat (n + i) \<and> rname (as ! i) = ms ! i"
proof (induction n as ms arbitrary: i rule: appends_from.induct)
  case (2 n j nm d ic rs m ms)
  then show ?case by (cases i) auto
qed simp_all

lemma block_open_iff: "block_open ls ms \<longleftrightarrow> (\<exists>as. ls = Clear # as \<and> appends_from 0 as ms)"
  by (auto simp: block_open_def split: list.splits reply.splits)

lemma block_closed_iff:
  "block_closed ls ms \<longleftrightarrow> (\<exists>as. ls = Clear # as @ [Finished] \<and> appends_from 0 as ms)"
proof
  assume "block_closed ls ms"
  then obtain rest where r: "ls = Clear # rest" "rest \<noteq> []" "last rest = Finished"
      "appends_from 0 (butlast rest) ms"
    by (auto simp: block_closed_def split: list.splits reply.splits)
  from r(2,3) have "rest = butlast rest @ [Finished]"
    by (metis append_butlast_last_id)
  with r show "\<exists>as. ls = Clear # as @ [Finished] \<and> appends_from 0 as ms" by blast
next
  assume "\<exists>as. ls = Clear # as @ [Finished] \<and> appends_from 0 as ms"
  then show "block_closed ls ms" by (auto simp: block_closed_def)
qed

lemma last_published_snoc:
  "last_published (ts @ [t]) = (if published t then matched t else last_published ts)"
  by (induction ts) auto

lemmas prim_defs = logf_def respond_def respondRaw_def set_pc_def appendResult_def start_search_def

lemma ended_iff: "ended t \<longleftrightarrow> pc t = TEnded"
  by (simp add: ended_def split: tpc.splits)

lemma published_iff: "published t \<longleftrightarrow> pc t = TFinish \<or> pc t = TClose \<or> pc t = TEnded"
  by (simp add: published_def split: tpc.splits)

lemma task_step_length [simp]: "length (tasks (task_step E j s)) = length (tasks s)"
  by (simp add: task_step_def prim_defs Let_def split: tpc.splits pstep.splits option.splits)

lemma task_step_frame [simp]:
  "requests (task_step E j s) = requests s"
  "mainpc (task_step E j s) = mainpc s"
  "searchCancel (task_step E j s) = searchCancel s"
  "activated (task_step E j s) = activated s"
  by (simp_all add: task_step_def prim_defs Let_def split: tpc.splits pstep.splits option.splits)

lemma task_step_other:
  "i \<noteq> j \<Longrightarrow> tasks (task_step E j s) ! i = tasks s ! i"
  by (simp add: task_step_def prim_defs Let_def split: tpc.splits pstep.splits option.splits)

lemma task_step_ended_mono:
  "i < length (tasks s) \<Longrightarrow> ended (tasks s ! i) \<Longrightarrow> ended (tasks (task_step E j s) ! i)"
  by (cases "i = j")
     (auto simp add: ended_iff task_step_def prim_defs Let_def split: tpc.splits pstep.splits option.splits)

lemma task_step_ended_id:
  "j < length (tasks s) \<Longrightarrow> ended (tasks s ! j) \<Longrightarrow> task_step E j s = s"
  by (auto simp add: ended_iff task_step_def Let_def split: tpc.splits)

lemma task_step_out_of_range: "\<not> j < length (tasks s) \<Longrightarrow> task_step E j s = s"
  by (simp add: task_step_def)

lemma inv_alive_task_step: "inv_alive s \<Longrightarrow> inv_alive (task_step E j s)"
  unfolding inv_alive_def
  by (auto simp: task_step_ended_mono split: option.splits mpc.splits)

lemma task_step_written:
  "j < length (tasks s) \<Longrightarrow>
   written (task_step E j s) = written s @ map (Pair (Task j)) (task_event E (tasks s ! j))"
  by (simp add: task_step_def task_event_def prim_defs Let_def
      split: tpc.splits pstep.splits option.splits)

lemma task_lines_map_same [simp]: "task_lines j (out @ map (Pair (Task j)) rs) = task_lines j out @ rs"
  by (simp add: task_lines_def comp_def)

lemma task_lines_map_other [simp]:
  "i \<noteq> j \<Longrightarrow> task_lines i (out @ map (Pair (Task j)) rs) = task_lines i out"
  by (simp add: task_lines_def comp_def)

lemma loop_lines_map_task [simp]: "loop_lines (out @ map (Pair (Task j)) rs) = loop_lines out"
  by (simp add: loop_lines_def comp_def)

lemma task_ids_map_task [simp]: "task_ids (map (Pair (Task j)) rs) = replicate (length rs) j"
  by (induction rs) simp_all

lemma task_step_loop_lines [simp]: "loop_lines (written (task_step E j s)) = loop_lines (written s)"
  by (cases "j < length (tasks s)") (simp_all add: task_step_written task_step_out_of_range)

lemma task_step_lines_other:
  "i \<noteq> j \<Longrightarrow> task_lines i (written (task_step E j s)) = task_lines i (written s)"
  by (cases "j < length (tasks s)") (simp_all add: task_step_written task_step_out_of_range)

lemma block_ok_step:
  assumes "j < length (tasks s)" "block_ok (tasks s ! j) ls"
  shows "block_ok (tasks (task_step E j s) ! j) (ls @ task_event E (tasks s ! j))"
  using assms
  by (auto simp: block_ok_def block_open_iff block_closed_iff task_step_def task_event_def
        prim_defs Let_def
      dest: appends_from_snoc [where n = 0, simplified]
      split: tpc.splits pstep.splits option.splits)

lemma inv_shape_task_step: "inv_shape s \<Longrightarrow> inv_shape (task_step E j s)"
proof (cases "j < length (tasks s)")
  case False
  assume "inv_shape s"
  with False show ?thesis by (simp add: task_step_out_of_range)
next
  case True
  assume a: "inv_shape s"
  show ?thesis
    unfolding inv_shape_def
  proof (intro allI impI)
    fix i assume "i < length (tasks (task_step E j s))"
    then have i: "i < length (tasks s)" by simp
    show "block_ok (tasks (task_step E j s) ! i) (task_lines i (written (task_step E j s)))"
    proof (cases "i = j")
      case True
      with a i block_ok_step [of j s _ E] show ?thesis
        by (simp add: inv_shape_def task_step_written)
    next
      case False
      with a i show ?thesis
        by (simp add: inv_shape_def task_step_other task_step_lines_other)
    qed
  qed
qed

lemma inv_tags_task_step: "inv_tags s \<Longrightarrow> inv_tags (task_step E j s)"
  by (cases "j < length (tasks s)")
     (auto simp: inv_tags_def task_step_written task_step_out_of_range task_ids_append)

lemma task_event_ended: "ended t \<Longrightarrow> task_event E t = []"
  by (simp add: ended_iff task_event_def)

lemma sorted_snoc_replicate:
  "sorted xs \<Longrightarrow> \<forall>x \<in> set xs. x \<le> j \<Longrightarrow> sorted (xs @ replicate n j)"
  by (auto simp: sorted_append)

lemma inv_order_task_step:
  assumes "inv_alive s" "inv_tags s" "inv_order s"
  shows "inv_order (task_step E j s)"
proof (cases "j < length (tasks s) \<and> \<not> ended (tasks s ! j)")
  case False
  then have "task_step E j s = s"
    by (cases "j < length (tasks s)") (auto simp: task_step_out_of_range task_step_ended_id)
  with assms show ?thesis by simp
next
  case True
  with assms(1) have "Suc j = length (tasks s)"
    unfolding inv_alive_def by (metis Suc_lessI)
  with assms(2) have "\<forall>x \<in> set (task_ids (written s)). x \<le> j"
    by (auto simp: inv_tags_def)
  with assms(3) True show ?thesis
    by (simp add: inv_order_def task_step_written task_ids_append sorted_snoc_replicate)
qed


lemma last_list_update_snoc:
  "Suc j = length ts \<Longrightarrow> ts[j := t] = butlast ts @ [t]"
  by (induction ts arbitrary: j rule: rev_induct) auto

lemma decompose_last: "Suc j = length ts \<Longrightarrow> ts = butlast ts @ [ts ! j]"
  by (induction ts arbitrary: j rule: rev_induct) auto

lemma last_published_ended:
  "Suc j = length ts \<Longrightarrow> published (ts ! j) \<Longrightarrow> last_published ts = matched (ts ! j)"
  using decompose_last [of j ts] last_published_snoc [of "butlast ts" "ts ! j"] by simp

lemma last_published_update:
  "Suc j = length ts \<Longrightarrow>
   last_published (ts[j := t]) = (if published t then matched t else last_published (butlast ts))"
  by (simp add: last_list_update_snoc last_published_snoc)

lemma last_published_butlast:
  "Suc j = length ts \<Longrightarrow> \<not> published (ts ! j) \<Longrightarrow> last_published (butlast ts) = last_published ts"
  using decompose_last [of j ts] last_published_snoc [of "butlast ts" "ts ! j"] by simp

lemma inv_table_task_step:
  assumes "inv_alive s" "inv_table s"
  shows "inv_table (task_step E j s)"
proof (cases "j < length (tasks s) \<and> \<not> ended (tasks s ! j)")
  case False
  then have "task_step E j s = s"
    by (cases "j < length (tasks s)") (auto simp: task_step_out_of_range task_step_ended_id)
  with assms show ?thesis by simp
next
  case True
  with assms(1) have last: "Suc j = length (tasks s)"
    unfolding inv_alive_def by (metis Suc_lessI)
  from True last assms(2) show ?thesis
    unfolding inv_table_def
    by (auto simp: task_step_def prim_defs Let_def last_published_update published_iff
          last_published_ended last_published_butlast ended_iff
        split: tpc.splits pstep.splits option.splits)
qed

lemma inv_task_step: "inv s \<Longrightarrow> inv (task_step E j s)"
  by (simp add: inv_def inv_rest_def inv_alive_task_step inv_tags_task_step inv_shape_task_step
      inv_order_task_step inv_table_task_step)

lemma mainpc_logf [simp]: "mainpc (logf e s) = mainpc s"
  by (simp add: logf_def)

lemma task_lines_snoc_loop [simp]: "task_lines j (out @ [(Loop, r)]) = task_lines j out"
  by (simp add: task_lines_def)

lemma task_ids_snoc_loop [simp]: "task_ids (out @ [(Loop, r)]) = task_ids out"
  by (simp add: task_ids_append)

lemma inv_rest_logf [simp]: "inv_rest (logf e s) = inv_rest s"
  by (simp add: inv_rest_def inv_tags_def inv_shape_def inv_order_def inv_table_def logf_def)

lemma inv_rest_mainpc [simp]: "inv_rest (s\<lparr>mainpc := m\<rparr>) = inv_rest s"
  by (simp add: inv_rest_def inv_tags_def inv_shape_def inv_order_def inv_table_def)

lemma inv_rest_searchCancel [simp]: "inv_rest (s\<lparr>searchCancel := c\<rparr>) = inv_rest s"
  by (simp add: inv_rest_def inv_tags_def inv_shape_def inv_order_def inv_table_def)

lemma inv_rest_requests [simp]: "inv_rest (s\<lparr>requests := c\<rparr>) = inv_rest s"
  by (simp add: inv_rest_def inv_tags_def inv_shape_def inv_order_def inv_table_def)

lemma inv_rest_activated [simp]: "inv_rest (s\<lparr>activated := c\<rparr>) = inv_rest s"
  by (simp add: inv_rest_def inv_tags_def inv_shape_def inv_order_def inv_table_def)

lemma inv_rest_respondRaw_loop [simp]: "inv_rest (respondRaw Loop r s) = inv_rest s"
  by (simp add: inv_rest_def inv_tags_def inv_shape_def inv_order_def inv_table_def respondRaw_def)

lemma quiet_logf [simp]: "quiet (logf e s) = quiet s"
  by (simp add: quiet_def logf_def)

lemma quiet_respondRaw [simp]: "quiet (respondRaw w r s) = quiet s"
  by (simp add: quiet_def respondRaw_def)

lemma quiet_activated [simp]: "quiet (s\<lparr>activated := c\<rparr>) = quiet s"
  by (simp add: quiet_def)

lemma quiet_mainpc [simp]: "quiet (s\<lparr>mainpc := m\<rparr>) = quiet s"
  by (simp add: quiet_def)

lemma inv_rest_do_activate [simp]: "inv_rest (do_activate E i s) = inv_rest s"
  by (simp add: do_activate_def Let_def split: option.splits)

lemma quiet_do_activate [simp]: "quiet (do_activate E i s) = quiet s"
  by (simp add: do_activate_def Let_def split: option.splits)

lemma inv_rest_start_search: "inv_rest s \<Longrightarrow> inv_rest (start_search q s)"
  unfolding inv_rest_def inv_tags_def inv_shape_def inv_order_def inv_table_def start_search_def
  by (auto simp: nth_append less_Suc_eq last_published_snoc published_iff block_ok_def
      task_lines_no_tag)

lemma inv_alive_start_search:
  "quiet s \<Longrightarrow> inv_alive ((start_search q s)\<lparr>mainpc := MRead\<rparr>)"
  by (auto simp: quiet_def inv_alive_def start_search_def nth_append)

lemma inv_alive_quiet: "quiet s \<Longrightarrow> mainpc s = MRead \<or> mainpc s = MDone \<Longrightarrow> inv_alive s"
  by (auto simp: quiet_def inv_alive_def)

lemma inv_resume: "inv_rest s \<Longrightarrow> quiet s \<Longrightarrow> inv (resume E k s)"
proof (cases k)
  case (KSearch q)
  assume "inv_rest s" "quiet s"
  then show ?thesis
    using inv_rest_start_search [of s q] inv_alive_start_search [of s q] KSearch
    by (simp add: inv_def)
qed (auto simp: inv_def intro!: inv_alive_quiet)


lemma last_published_cong:
  "map pc ts = map pc us \<Longrightarrow> map matched ts = map matched us \<Longrightarrow>
   last_published ts = last_published us"
proof (induction ts arbitrary: us)
  case Nil
  then show ?case by simp
next
  case (Cons t ts)
  then obtain u us' where us: "us = u # us'" by (cases us) auto
  with Cons.prems have eq: "pc t = pc u" "matched t = matched u" "map pc ts = map pc us'"
      "map matched ts = map matched us'" by auto
  from eq(3) have "(\<exists>x \<in> set ts. published x) = (\<exists>x \<in> set us'. published x)"
  proof -
    have "(\<exists>x \<in> set ts. published x) \<longleftrightarrow> (\<exists>c \<in> set (map pc ts). c = TFinish \<or> c = TClose \<or> c = TEnded)"
      by (auto simp: published_iff)
    also have "\<dots> \<longleftrightarrow> (\<exists>c \<in> set (map pc us'). c = TFinish \<or> c = TClose \<or> c = TEnded)"
      using eq(3) by simp
    also have "\<dots> \<longleftrightarrow> (\<exists>x \<in> set us'. published x)"
      by (auto simp: published_iff)
    finally show ?thesis .
  qed
  with eq Cons.IH [of us'] us show ?case
    by (simp add: published_iff)
qed


lemma list_update_field:
  assumes "\<And>t. f (g t) = f t"
  shows "f ((ts[j := g (ts ! j)]) ! i) = f (ts ! i)"
proof (cases "j < length ts")
  case True
  then show ?thesis using assms by (simp add: nth_list_update)
next
  case False
  then have "ts[j := g (ts ! j)] = ts" by (intro list_update_beyond) simp
  then show ?thesis by simp
qed

lemma cancel_flag_pc:
  "pc ((ts[j := (ts ! j)\<lparr>cancelled := True\<rparr>]) ! i) = pc (ts ! i)"
  using list_update_field [of pc "\<lambda>t. t\<lparr>cancelled := True\<rparr>" ts j i] by simp

lemma cancel_flag_matched:
  "matched ((ts[j := (ts ! j)\<lparr>cancelled := True\<rparr>]) ! i) = matched (ts ! i)"
  using list_update_field [of matched "\<lambda>t. t\<lparr>cancelled := True\<rparr>" ts j i] by simp

lemmas cancel_flag_nth = cancel_flag_pc cancel_flag_matched

lemma cancel_flag_maps:
  "map pc (ts[j := (ts ! j)\<lparr>cancelled := True\<rparr>]) = map pc ts"
  "map matched (ts[j := (ts ! j)\<lparr>cancelled := True\<rparr>]) = map matched ts"
  by (rule nth_equalityI, simp, simp add: cancel_flag_nth)+

lemma last_published_cancel:
  "last_published (ts[j := (ts ! j)\<lparr>cancelled := True\<rparr>]) = last_published ts"
  by (rule last_published_cong) (simp_all add: cancel_flag_maps)

lemma block_ok_cong: "pc t = pc u \<Longrightarrow> matched t = matched u \<Longrightarrow> block_ok t ls = block_ok u ls"
  by (simp add: block_ok_def split: tpc.splits)

lemma block_ok_cancel:
  "block_ok ((ts[j := (ts ! j)\<lparr>cancelled := True\<rparr>]) ! i) ls = block_ok (ts ! i) ls"
  by (rule block_ok_cong) (simp_all add: cancel_flag_nth)

lemma inv_rest_cancel:
  "inv_rest s \<Longrightarrow> inv_rest (s\<lparr>tasks := (tasks s)[j := (tasks s ! j)\<lparr>cancelled := True\<rparr>]\<rparr>)"
  unfolding inv_rest_def inv_tags_def inv_shape_def inv_order_def inv_table_def
  by (simp add: block_ok_cancel last_published_cancel)

lemma inv_cancelSearch: "inv s \<Longrightarrow> mainpc s = MRead \<Longrightarrow> inv (cancelSearch E k s)"
proof (cases "searchCancel s")
  case None
  assume a: "inv s" "mainpc s = MRead"
  with None have "quiet s" "inv_rest s" by (simp_all add: inv_def inv_alive_def quiet_def)
  with None show ?thesis by (simp add: cancelSearch_def inv_resume)
next
  case (Some j)
  assume a: "inv s" "mainpc s = MRead"
  with Some have "inv_alive (s\<lparr>tasks := (tasks s)[j := (tasks s ! j)\<lparr>cancelled := True\<rparr>], mainpc := MWait j k\<rparr>)"
    by (simp add: inv_def inv_alive_def ended_iff cancel_flag_nth)
  with a Some inv_rest_cancel [of s j] show ?thesis
    by (simp add: cancelSearch_def inv_def)
qed

lemma inv_join: "inv s \<Longrightarrow> mainpc s = MWait j k \<Longrightarrow> inv (join E j k s)"
proof (cases "j < length (tasks s) \<and> ended (tasks s ! j)")
  case False
  assume "inv s"
  with False show ?thesis by (auto simp: join_def)
next
  case True
  assume a: "inv s" "mainpc s = MWait j k"
  then have "Suc j = length (tasks s)" "\<forall>i. Suc i < length (tasks s) \<longrightarrow> ended (tasks s ! i)"
    by (auto simp: inv_def inv_alive_def)
  have "ended (tasks s ! i)" if "i < length (tasks s)" for i
  proof (cases "i = j")
    case True
    with \<open>j < length (tasks s) \<and> ended (tasks s ! j)\<close> show ?thesis by simp
  next
    case False
    with that \<open>Suc j = length (tasks s)\<close> have "Suc i < length (tasks s)" by arith
    with \<open>\<forall>i. Suc i < length (tasks s) \<longrightarrow> ended (tasks s ! i)\<close> show ?thesis by blast
  qed
  then have "quiet (s\<lparr>searchCancel := None\<rparr>)"
    by (simp add: quiet_def)
  moreover from a have "inv_rest (s\<lparr>searchCancel := None\<rparr>)" by (simp add: inv_def)
  ultimately show ?thesis using True by (simp add: join_def inv_resume)
qed

lemma logf_fields [simp]:
  "requests (logf e s) = requests s"
  "written (logf e s) = written s"
  "lastResults (logf e s) = lastResults s"
  "searchCancel (logf e s) = searchCancel s"
  "tasks (logf e s) = tasks s"
  "activated (logf e s) = activated s"
  "searched (logf e s) = searched s"
  "logs (logf e s) = logs s @ [e]"
  by (simp_all add: logf_def)

lemma respondRaw_fields [simp]:
  "requests (respondRaw w r s) = requests s"
  "written (respondRaw w r s) = written s @ [(w, r)]"
  "lastResults (respondRaw w r s) = lastResults s"
  "searchCancel (respondRaw w r s) = searchCancel s"
  "tasks (respondRaw w r s) = tasks s"
  "mainpc (respondRaw w r s) = mainpc s"
  "activated (respondRaw w r s) = activated s"
  "searched (respondRaw w r s) = searched s"
  "logs (respondRaw w r s) = logs s @ [LWritten r]"
  by (simp_all add: respondRaw_def)

lemma inv_logf [simp]: "inv (logf e s) = inv s"
  by (simp add: inv_def inv_alive_def cong: option.case_cong mpc.case_cong)

lemma inv_requests [simp]: "inv (s\<lparr>requests := r\<rparr>) = inv s"
  by (simp add: inv_def inv_alive_def cong: option.case_cong mpc.case_cong)

lemma inv_dispatch: "inv s \<Longrightarrow> mainpc s = MRead \<Longrightarrow> inv (dispatch E line s)"
  by (simp add: dispatch_def Let_def inv_cancelSearch split: option.splits)

lemma inv_loop_step: "inv s \<Longrightarrow> inv (loop_step E s)"
  by (auto simp: loop_step_def inv_join inv_dispatch split: mpc.splits list.splits)
     (simp add: inv_def inv_alive_def cong: option.case_cong)

lemma inv_init: "inv (init lines)"
  by (simp add: inv_def inv_alive_def inv_rest_def inv_tags_def inv_shape_def inv_order_def
      inv_table_def init_def)

lemma inv_step: "inv s \<Longrightarrow> inv (step E th s)"
  by (cases th) (simp_all add: inv_loop_step inv_task_step)

lemma exec_Nil [simp]: "exec E [] s = s"
  by (simp add: exec_def)

lemma exec_Cons [simp]: "exec E (th # sched) s = exec E sched (step E th s)"
  by (simp add: exec_def)

lemma exec_append: "exec E (a @ b) s = exec E b (exec E a s)"
  by (simp add: exec_def)

lemma inv_exec: "inv s \<Longrightarrow> inv (exec E sched s)"
  by (induction sched arbitrary: s) (simp_all add: inv_step)

lemma inv_reachable: "inv (exec E sched (init lines))"
  by (simp add: inv_exec inv_init)

section \<open>The trace of a lone Exit\<close>


lemma TrimSpace_exit: "TrimSpace exit_literal = exit_literal"
  by code_simp

lemma TrimSpace_interrupt: "TrimSpace interrupt_literal = interrupt_literal"
  by code_simp

lemma exit_ne_interrupt: "exit_literal \<noteq> interrupt_literal"
  by (simp add: exit_literal_def interrupt_literal_def)

lemma loop_step_exit_alone: "loop_step E (init [exit_literal]) = after_exit"
  by (simp add: loop_step_def init_def dispatch_def TrimSpace_exit cancelSearch_def logf_def
      respondRaw_def after_exit_def)

lemma step_after_exit: "step E th after_exit = after_exit"
  by (cases th) (simp_all add: loop_step_def task_step_def after_exit_def)

lemma exec_after_exit: "exec E sched after_exit = after_exit"
  by (induction sched) (simp_all add: step_after_exit)

lemma exec_exit_alone:
  "exec E sched (init [exit_literal]) = (if MainT \<in> set sched then after_exit else init [exit_literal])"
proof (induction sched)
  case Nil
  then show ?case by simp
next
  case (Cons th sched)
  show ?case
  proof (cases th)
    case MainT
    then show ?thesis by (simp add: loop_step_exit_alone exec_after_exit)
  next
    case (TaskT j)
    then have "step E th (init [exit_literal]) = init [exit_literal]"
      by (simp add: task_step_def init_def)
    with Cons TaskT show ?thesis by simp
  qed
qed

lemma loop_frame_refl [simp]: "loop_frame s s"
  by (auto simp add: loop_frame_def)

lemma loop_frame_trans:
  assumes "loop_frame s t" "loop_frame t u"
  shows "loop_frame s u"
proof -
  have fresh: "pc (tasks u ! j) = TClear \<and> matched (tasks u ! j) = []"
    if "length (tasks s) \<le> j \<and> j < length (tasks u)" for j
  proof (cases "j < length (tasks t)")
    case True
    with assms that show ?thesis by (simp add: loop_frame_def)
  next
    case False
    with assms(2) that show ?thesis by (simp add: loop_frame_def)
  qed
  have old: "pc (tasks u ! j) = pc (tasks s ! j) \<and> matched (tasks u ! j) = matched (tasks s ! j) \<and>
      query (tasks u ! j) = query (tasks s ! j)" if "j < length (tasks s)" for j
    using assms that by (simp add: loop_frame_def)
  from assms have "(\<forall>j. task_lines j (written u) = task_lines j (written s)) \<and>
      task_ids (written u) = task_ids (written s) \<and> length (tasks s) \<le> length (tasks u) \<and>
      lastResults u = lastResults s \<and> searched u = searched s"
    by (simp add: loop_frame_def)
  with fresh old show ?thesis unfolding loop_frame_def by blast
qed

lemma loop_frame_logf [simp]: "loop_frame s (logf e t) = loop_frame s t"
  by (simp add: loop_frame_def)

lemma loop_frame_mainpc [simp]: "loop_frame s (t\<lparr>mainpc := m\<rparr>) = loop_frame s t"
  by (simp add: loop_frame_def)

lemma loop_frame_requests [simp]: "loop_frame s (t\<lparr>requests := m\<rparr>) = loop_frame s t"
  by (simp add: loop_frame_def)

lemma loop_frame_searchCancel [simp]: "loop_frame s (t\<lparr>searchCancel := m\<rparr>) = loop_frame s t"
  by (simp add: loop_frame_def)

lemma loop_frame_activated [simp]: "loop_frame s (t\<lparr>activated := m\<rparr>) = loop_frame s t"
  by (simp add: loop_frame_def)

lemma loop_frame_respondRaw [simp]: "loop_frame s (respondRaw Loop r t) = loop_frame s t"
  by (simp add: loop_frame_def)

lemma loop_frame_do_activate [simp]: "loop_frame s (do_activate E i t) = loop_frame s t"
  by (simp add: do_activate_def Let_def split: option.splits)

lemma loop_frame_start_search: "loop_frame s t \<Longrightarrow> loop_frame s (start_search q t)"
  by (auto simp: loop_frame_def start_search_def nth_append)

lemma loop_frame_cancel:
  "loop_frame s t \<Longrightarrow>
   loop_frame s (t\<lparr>tasks := (tasks t)[j := (tasks t ! j)\<lparr>cancelled := True\<rparr>]\<rparr>)"
  using list_update_field [of query "\<lambda>t. t\<lparr>cancelled := True\<rparr>" "tasks t" j]
  by (simp add: loop_frame_def cancel_flag_nth)

lemma loop_frame_resume: "loop_frame s t \<Longrightarrow> loop_frame s (resume E k t)"
  by (cases k) (simp_all add: loop_frame_start_search)

lemma loop_frame_cancelSearch: "loop_frame s t \<Longrightarrow> loop_frame s (cancelSearch E k t)"
  by (simp add: cancelSearch_def loop_frame_resume loop_frame_cancel split: option.splits)

lemma loop_frame_join: "loop_frame s t \<Longrightarrow> loop_frame s (join E j k t)"
  by (simp add: join_def loop_frame_resume)

lemma loop_frame_dispatch: "loop_frame s t \<Longrightarrow> loop_frame s (dispatch E line t)"
  by (simp add: dispatch_def Let_def loop_frame_cancelSearch split: option.splits)

lemma loop_frame_loop_step: "loop_frame s (loop_step E s)"
  by (simp add: loop_step_def loop_frame_join loop_frame_dispatch split: mpc.splits list.splits)

lemma loop_step_task_lines [simp]:
  "task_lines j (written (loop_step E s)) = task_lines j (written s)"
  using loop_frame_loop_step [of s E] by (simp add: loop_frame_def)

lemma loop_step_pc:
  "j < length (tasks s) \<Longrightarrow> pc (tasks (loop_step E s) ! j) = pc (tasks s ! j)"
  using loop_frame_loop_step [of s E] by (simp add: loop_frame_def)

lemma loop_step_matched:
  "j < length (tasks s) \<Longrightarrow> matched (tasks (loop_step E s) ! j) = matched (tasks s ! j)"
  using loop_frame_loop_step [of s E] by (simp add: loop_frame_def)

lemma loop_step_length: "length (tasks s) \<le> length (tasks (loop_step E s))"
  using loop_frame_loop_step [of s E] by (simp add: loop_frame_def)

lemma loop_step_lastResults [simp]: "lastResults (loop_step E s) = lastResults s"
  using loop_frame_loop_step [of s E] by (simp add: loop_frame_def)

lemma loop_step_searched [simp]: "searched (loop_step E s) = searched s"
  using loop_frame_loop_step [of s E] by (simp add: loop_frame_def)

text \<open>Once a goroutine has ended, nothing about it changes.\<close>

lemma step_ended_stable:
  assumes "j < length (tasks s)" "ended (tasks s ! j)"
  shows "j < length (tasks (step E th s)) \<and> ended (tasks (step E th s) ! j) \<and>
         task_lines j (written (step E th s)) = task_lines j (written s) \<and>
         matched (tasks (step E th s) ! j) = matched (tasks s ! j)"
proof (cases th)
  case MainT
  with assms loop_step_length [of s E] show ?thesis
    by (simp add: ended_iff loop_step_pc loop_step_matched)
next
  case (TaskT i)
  show ?thesis
  proof (cases "i = j")
    case True
    with assms TaskT show ?thesis by (simp add: task_step_ended_id)
  next
    case False
    with assms TaskT show ?thesis
      by (simp add: task_step_other task_step_lines_other)
  qed
qed

lemma exec_ended_stable:
  "j < length (tasks s) \<Longrightarrow> ended (tasks s ! j) \<Longrightarrow>
   j < length (tasks (exec E sched s)) \<and> ended (tasks (exec E sched s) ! j) \<and>
   task_lines j (written (exec E sched s)) = task_lines j (written s) \<and>
   matched (tasks (exec E sched s) ! j) = matched (tasks s ! j)"
proof (induction sched arbitrary: s)
  case Nil
  then show ?case by simp
next
  case (Cons th sched)
  from step_ended_stable [OF Cons.prems, of E th] Cons.IH [of "step E th s"]
  show ?case by simp
qed

lemma reach_shape:
  "j < length (tasks (exec E sched (init lines))) \<Longrightarrow>
   block_ok (tasks (exec E sched (init lines)) ! j)
     (task_lines j (written (exec E sched (init lines))))"
  using inv_reachable [of E sched lines] by (simp add: inv_def inv_rest_def inv_shape_def)

lemma appends_from_names: "appends_from n as ms \<Longrightarrow> ms = map rname as"
  by (induction n as ms rule: appends_from.induct) simp_all

lemma appends_from_filter: "appends_from n as ms \<Longrightarrow> filter is_append as = as"
  using appends_from_all [of n as ms] by (simp add: filter_id_conv)

lemma block_ok_cases:
  assumes "block_ok t ls"
  shows "\<exists>as. appends_from 0 as (matched t) \<and>
           ls = (case pc t of
                   TClear \<Rightarrow> []
                 | TCall p \<Rightarrow> Clear # as
                 | TPublish \<Rightarrow> Clear # as
                 | TFinish \<Rightarrow> Clear # as
                 | TClose \<Rightarrow> Clear # as @ [Finished]
                 | TEnded \<Rightarrow> Clear # as @ [Finished])"
proof (cases "pc t")
  case TClear
  with assms have "appends_from 0 [] (matched t) \<and> ls = []" by (simp add: block_ok_def)
  with TClear show ?thesis by auto
qed (use assms in \<open>auto simp: block_ok_def block_open_iff block_closed_iff\<close>)

lemma block_ok_appends:
  assumes "block_ok t ls"
  shows "appends_from 0 (filter is_append ls) (matched t)"
proof -
  from block_ok_cases [OF assms] obtain as where as: "appends_from 0 as (matched t)"
    and ls: "ls = (case pc t of TClear \<Rightarrow> [] | TCall p \<Rightarrow> Clear # as | TPublish \<Rightarrow> Clear # as
                 | TFinish \<Rightarrow> Clear # as | TClose \<Rightarrow> Clear # as @ [Finished]
                 | TEnded \<Rightarrow> Clear # as @ [Finished])"
    by blast
  from assms have e: "pc t = TClear \<Longrightarrow> matched t = []" by (simp add: block_ok_def)
  have "filter is_append ls = as \<or> (filter is_append ls = [] \<and> matched t = [])"
    using ls appends_from_filter [OF as] e by (cases "pc t") simp_all
  with as show ?thesis by auto
qed

lemma dispatch_command:
  "dispatch E line s =
     (case command_of E line of
        CExit \<Rightarrow> cancelSearch E KExit (logf LExiting s)
      | CInterrupt \<Rightarrow> cancelSearch E (KInterrupt (searchCancel s \<noteq> None)) (logf LInterrupted s)
      | CSearch q \<Rightarrow> cancelSearch E (KSearch q) s
      | CActivate i \<Rightarrow> cancelSearch E (KActivate i) s
      | CUnrecognized \<Rightarrow> logf (LUnhandled line) s
      | CMalformed \<Rightarrow> logf (LParseFailed line) s)"
  by (simp add: dispatch_def command_of_def Let_def split: option.splits)

lemma loop_step_read:
  "mainpc s = MRead \<Longrightarrow> requests s = l # rest \<Longrightarrow>
   loop_step E s = dispatch E l (logf (LReceived l) (s\<lparr>requests := rest\<rparr>))"
  by (simp add: loop_step_def)

lemma cancelSearch_recorded:
  "searchCancel s = Some j \<Longrightarrow>
   cancelSearch E k s =
     s\<lparr>tasks := (tasks s)[j := (tasks s ! j)\<lparr>cancelled := True\<rparr>], mainpc := MWait j k\<rparr>"
  by (simp add: cancelSearch_def)

lemma loop_step_cancels:
  assumes "mainpc s = MRead" "requests s = l # rest" "searchCancel s = Some j"
    "cancels_first (command_of E l)"
  shows "(\<exists>k. mainpc (loop_step E s) = MWait j k) \<and>
         written (loop_step E s) = written s \<and>
         activated (loop_step E s) = activated s \<and>
         length (tasks (loop_step E s)) = length (tasks s) \<and>
         requests (loop_step E s) = rest"
  using assms
  by (cases "command_of E l")
     (simp_all add: loop_step_read dispatch_command cancelSearch_recorded)

lemma loop_step_blocked:
  "mainpc s = MWait j k \<Longrightarrow> \<not> (j < length (tasks s) \<and> ended (tasks s ! j)) \<Longrightarrow>
   loop_step E s = s"
  by (auto simp add: loop_step_def join_def)




lemma reach_append_ids:
  assumes "j < length (tasks (exec E sched (init lines)))"
    "i < length (matched (tasks (exec E sched (init lines)) ! j))"
  shows "i < length (filter is_append (task_lines j (written (exec E sched (init lines))))) \<and>
         rid (filter is_append (task_lines j (written (exec E sched (init lines)))) ! i) = of_nat i \<and>
         rname (filter is_append (task_lines j (written (exec E sched (init lines)))) ! i) =
           matched (tasks (exec E sched (init lines)) ! j) ! i"
proof -
  from block_ok_appends [OF reach_shape [OF assms(1)]]
  have a: "appends_from 0 (filter is_append (task_lines j (written (exec E sched (init lines)))))
             (matched (tasks (exec E sched (init lines)) ! j))" .
  from appends_from_length [OF a] assms(2)
  have i: "i < length (filter is_append (task_lines j (written (exec E sched (init lines)))))"
    by simp
  with appends_from_nth [OF a i] show ?thesis by simp
qed

lemma reach_table: "lastResults (exec E sched (init lines)) = last_published (tasks (exec E sched (init lines)))"
  using inv_reachable [of E sched lines] by (simp add: inv_def inv_rest_def inv_table_def)

lemma last_published_latest:
  "j < length ts \<Longrightarrow> published (ts ! j) \<Longrightarrow> \<forall>i. j < i \<and> i < length ts \<longrightarrow> \<not> published (ts ! i) \<Longrightarrow>
   last_published ts = matched (ts ! j)"
proof (induction ts arbitrary: j)
  case Nil
  then show ?case by simp
next
  case (Cons t ts)
  show ?case
  proof (cases j)
    case 0
    have "\<not> published u" if "u \<in> set ts" for u
    proof -
      from that obtain i where "i < length ts" "ts ! i = u" by (auto simp: in_set_conv_nth)
      with Cons.prems(3) [rule_format, of "Suc i"] 0 show ?thesis by auto
    qed
    with Cons.prems 0 show ?thesis by auto
  next
    case (Suc j')
    with Cons.prems have "j' < length ts" "published (ts ! j')" by auto
    moreover from Cons.prems(3) Suc have "\<forall>i. j' < i \<and> i < length ts \<longrightarrow> \<not> published (ts ! i)"
      by (metis Suc_less_eq length_Cons nth_Cons_Suc)
    ultimately have "last_published ts = matched (ts ! j')" by (rule Cons.IH)
    moreover from \<open>j' < length ts\<close> \<open>published (ts ! j')\<close> have "\<exists>u \<in> set ts. published u"
      using nth_mem by blast
    ultimately show ?thesis using Suc by simp
  qed
qed

lemma flood_step:
  assumes "tasks s = [t]" "pc t = TCall ()"
  shows "tasks (task_step flood_engine 0 s) = [t\<lparr>matched := matched t @ [''x'']\<rparr>]"
  using assms
  by (simp add: task_step_def flood_engine_def test_engine_def flood_def prim_defs)

lemma flood_run:
  "tasks s = [t] \<Longrightarrow> pc t = TCall () \<Longrightarrow>
   \<exists>t'. tasks (exec flood_engine (replicate n (TaskT 0)) s) = [t'] \<and>
        length (matched t') = length (matched t) + n"
proof (induction n arbitrary: s t)
  case 0
  then show ?case by simp
next
  case (Suc n)
  from flood_step [OF Suc.prems]
  have "tasks (task_step flood_engine 0 s) = [t\<lparr>matched := matched t @ [''x'']\<rparr>]" .
  from Suc.IH [OF this] Suc.prems(2) show ?case by auto
qed

lemma flood_enter:
  "tasks (exec flood_engine [MainT, TaskT 0] (init [search_line ''q''])) =
     [\<lparr>query = ''q'', cancelled = False, pc = TCall (), matched = []\<rparr>]"
  by code_simp

lemma flood_matched:
  "\<exists>t. tasks (exec flood_engine (flood_sched n) (init [search_line ''q''])) = [t] \<and>
       length (matched t) = n"
proof -
  from flood_enter obtain t where t: "tasks (exec flood_engine [MainT, TaskT 0] (init [search_line ''q''])) = [t]"
    "pc t = TCall ()" "matched t = []" by simp
  from flood_run [OF t(1,2), of n] t(3)
  have "\<exists>t'. tasks (exec flood_engine (replicate n (TaskT 0))
          (exec flood_engine [MainT, TaskT 0] (init [search_line ''q'']))) = [t'] \<and> length (matched t') = n"
    by simp
  moreover have "flood_sched n = [MainT, TaskT 0] @ replicate n (TaskT 0)"
    by (simp add: flood_sched_def)
  ultimately show ?thesis by (simp only: exec_append)
qed

lemma resume_effect:
  assumes "\<not> spawns k" "quiet s"
  shows "quiet (resume E k s) \<and> (mainpc (resume E k s) = MRead \<or> mainpc (resume E k s) = MDone) \<and>
         requests (resume E k s) = requests s \<and>
         length (tasks (resume E k s)) = length (tasks s) \<and>
         lastResults (resume E k s) = lastResults s \<and>
         loop_lines (written (resume E k s)) = loop_lines (written s) @ loop_replies k \<and>
         activated (resume E k s) = activated s @ handler_calls k (lastResults s)"
proof (cases k)
  case (KActivate i)
  with assms show ?thesis
    by (simp add: do_activate_def Let_def loop_lines_snoc quiet_def split: option.splits)
qed (use assms in \<open>simp_all add: loop_lines_snoc\<close>)

lemma quiet_task_step: "quiet s \<Longrightarrow> task_step E j s = s"
  by (cases "j < length (tasks s)")
     (simp_all add: quiet_def task_step_ended_id task_step_out_of_range)

lemma handling_task_step:
  assumes "handling s0 k rest s"
  shows "handling s0 k rest (task_step E j s)"
proof (cases "quiet s")
  case True
  with assms show ?thesis by (simp add: quiet_task_step)
next
  case False
  with assms show ?thesis
    by (auto simp: handling_def)
qed

lemma loop_step_requests:
  "requests (loop_step E s) = requests s \<or>
   (mainpc s = MRead \<and> requests s \<noteq> [] \<and> requests (loop_step E s) = tl (requests s))"
proof -
  have r: "requests (resume E k t) = requests t" for k and t :: "'a state"
    by (cases k) (simp_all add: start_search_def do_activate_def Let_def split: option.splits)
  have c: "requests (cancelSearch E k t) = requests t" for k and t :: "'a state"
    by (simp add: cancelSearch_def r split: option.splits)
  have d: "requests (dispatch E l t) = requests t" for l and t :: "'a state"
    by (simp add: dispatch_def Let_def c split: option.splits)
  show ?thesis
    by (auto simp: loop_step_def join_def r d split: mpc.splits list.splits)
qed

lemma quiet_of_join:
  assumes "inv s" "mainpc s = MWait j k" "j < length (tasks s)" "ended (tasks s ! j)"
  shows "quiet (s\<lparr>searchCancel := None\<rparr>)"
proof -
  from assms(1,2) have last: "Suc j = length (tasks s)"
    and rest: "\<forall>i. Suc i < length (tasks s) \<longrightarrow> ended (tasks s ! i)"
    by (auto simp: inv_def inv_alive_def)
  have "ended (tasks s ! i)" if "i < length (tasks s)" for i
  proof (cases "i = j")
    case True
    with assms(4) show ?thesis by simp
  next
    case False
    with that last have "Suc i < length (tasks s)" by arith
    with rest show ?thesis by blast
  qed
  then show ?thesis by (simp add: quiet_def)
qed

lemma handling_loop_step:
  assumes "inv s" "handling s0 k rest s" "\<not> spawns k"
  shows "handling s0 k rest (loop_step E s)"
proof (cases "requests s = rest")
  case False
  with assms(2) have "length (requests s) < length rest" by (simp add: handling_def)
  moreover from loop_step_requests [of E s]
  have "length (requests (loop_step E s)) \<le> length (requests s)" by auto
  ultimately have "length (requests (loop_step E s)) < length rest" by simp
  then show ?thesis by (auto simp: handling_def)
next
  case True
  with assms(2) have len: "length (tasks s) = length (tasks s0)"
    and cases: "((\<exists>j. mainpc s = MWait j k \<and> searchCancel s0 = Some j) \<and> loop_lines (written s) = loop_lines (written s0) \<and>
          activated s = activated s0) \<or>
         ((mainpc s = MRead \<or> mainpc s = MDone) \<and> quiet s \<and>
          loop_lines (written s) = loop_lines (written s0) @ loop_replies k \<and>
          activated s = activated s0 @ handler_calls k (lastResults s))"
    by (simp_all add: handling_def)
  from cases show ?thesis
  proof
    assume w: "(\<exists>j. mainpc s = MWait j k \<and> searchCancel s0 = Some j) \<and> loop_lines (written s) = loop_lines (written s0) \<and>
          activated s = activated s0"
    then obtain j where j: "mainpc s = MWait j k" by blast
    show ?thesis
    proof (cases "j < length (tasks s) \<and> ended (tasks s ! j)")
      case False
      with j have "loop_step E s = s" by (rule loop_step_blocked)
      with assms(2) show ?thesis by simp
    next
      case e: True
      with j have ls: "loop_step E s = resume E k (s\<lparr>searchCancel := None\<rparr>)"
        by (simp add: loop_step_def join_def)
      from quiet_of_join [OF assms(1) j] e have q: "quiet (s\<lparr>searchCancel := None\<rparr>)" by simp
      from resume_effect [OF assms(3) q, of E] w True len ls show ?thesis
        by (simp add: handling_def)
    qed
  next
    assume d: "(mainpc s = MRead \<or> mainpc s = MDone) \<and> quiet s \<and>
          loop_lines (written s) = loop_lines (written s0) @ loop_replies k \<and>
          activated s = activated s0 @ handler_calls k (lastResults s)"
    show ?thesis
    proof (cases "mainpc s = MDone")
      case True
      then have "loop_step E s = s" by (simp add: loop_step_def)
      with assms(2) show ?thesis by simp
    next
      case False
      with d have m: "mainpc s = MRead" by simp
      show ?thesis
      proof (cases rest)
        case Nil
        with m True have "loop_step E s = s\<lparr>mainpc := MDone\<rparr>" by (simp add: loop_step_def)
        with d True len show ?thesis by (simp add: handling_def quiet_def)
      next
        case (Cons l' r')
        with loop_step_requests [of E s] True
        have "requests (loop_step E s) = rest \<or> requests (loop_step E s) = r'" by auto
        moreover from m True Cons have "requests (loop_step E s) \<noteq> rest"
        proof -
          have r: "requests (resume E k t) = requests t" for k and t :: "'a state"
            by (cases k) (simp_all add: start_search_def do_activate_def Let_def split: option.splits)
          have c: "requests (cancelSearch E k t) = requests t" for k and t :: "'a state"
            by (simp add: cancelSearch_def r split: option.splits)
          have "requests (dispatch E l t) = requests t" for l and t :: "'a state"
            by (simp add: dispatch_def Let_def c split: option.splits)
          with m True Cons have "requests (loop_step E s) = r'" by (simp add: loop_step_read)
          with Cons show ?thesis by simp
        qed
        ultimately have "length (requests (loop_step E s)) < length rest" using Cons by simp
        then show ?thesis by (auto simp: handling_def)
      qed
    qed
  qed
qed

lemma handling_exec:
  "inv s \<Longrightarrow> handling s0 k rest s \<Longrightarrow> \<not> spawns k \<Longrightarrow> handling s0 k rest (exec E sched s)"
proof (induction sched arbitrary: s)
  case Nil
  then show ?case by simp
next
  case (Cons th sched)
  have "handling s0 k rest (step E th s)"
    using Cons.prems by (cases th) (simp_all add: handling_loop_step handling_task_step)
  with Cons.IH [of "step E th s"] Cons.prems inv_step [of s E th] show ?case by simp
qed

lemma cancelSearch_none: "searchCancel s = None \<Longrightarrow> cancelSearch E k s = resume E k s"
  by (simp add: cancelSearch_def)

lemma handling_cancelSearch:
  assumes "inv s0" "\<not> spawns k" "mainpc s = MRead" "requests s = rest"
    "searchCancel s = searchCancel s0" "tasks s = tasks s0" "written s = written s0"
    "activated s = activated s0" "lastResults s = lastResults s0"
  shows "handling s0 k rest (cancelSearch E k s)"
proof (cases "searchCancel s")
  case None
  with assms have q: "quiet s" by (simp add: quiet_def inv_def inv_alive_def)
  from resume_effect [OF assms(2) q, of E] None assms show ?thesis
    by (simp add: cancelSearch_none handling_def)
next
  case (Some j)
  from Some assms(5) have "searchCancel s0 = Some j" by simp
  with cancelSearch_recorded [OF Some, of E k] assms show ?thesis
    by (simp add: handling_def)
qed

lemma handling_start:
  assumes "inv s" "mainpc s = MRead" "requests s = l # rest"
    "cont_of (command_of E l) (searchCancel s \<noteq> None) = Some k" "\<not> spawns k"
  shows "handling s k rest (loop_step E s)"
proof (cases "command_of E l")
  case CExit
  with assms show ?thesis
    by (simp add: loop_step_read dispatch_command handling_cancelSearch)
next
  case CInterrupt
  with assms show ?thesis
    by (auto simp add: loop_step_read dispatch_command handling_cancelSearch)
next
  case (CActivate i)
  with assms show ?thesis
    by (simp add: loop_step_read dispatch_command handling_cancelSearch)
qed (use assms in auto)

lemma handling_run:
  assumes "inv s" "mainpc s = MRead" "requests s = l # rest"
    "cont_of (command_of E l) (searchCancel s \<noteq> None) = Some k" "\<not> spawns k"
  shows "handling s k rest (exec E later (loop_step E s))"
  using handling_exec [OF inv_loop_step [OF assms(1)] handling_start [OF assms] assms(5)] .

lemma inv_shapeD: "inv s \<Longrightarrow> j < length (tasks s) \<Longrightarrow> block_ok (tasks s ! j) (task_lines j (written s))"
  by (simp add: inv_def inv_rest_def inv_shape_def)

lemma count_appends: "\<forall>a \<in> set as. is_append a \<Longrightarrow> count_list as Finished = 0"
  by (induction as) auto

lemma ended_one_finished:
  assumes "block_ok t ls" "ended t"
  shows "count_list ls Finished = 1"
proof -
  from block_ok_cases [OF assms(1)] assms(2) obtain as where
    "appends_from 0 as (matched t)" "ls = Clear # as @ [Finished]"
    by (auto simp: ended_iff)
  with count_appends [OF appends_from_all, of 0 as "matched t"] show ?thesis by simp
qed

lemma join_when_ended:
  assumes "inv s" "mainpc s = MWait j k" "ended (tasks s ! j)"
  shows "loop_step E s = resume E k (s\<lparr>searchCancel := None\<rparr>)"
proof -
  from assms(1,2) have "Suc j = length (tasks s)" by (auto simp: inv_def inv_alive_def)
  with assms(2,3) show ?thesis by (simp add: loop_step_def join_def)
qed

lemma resume_leaves_wait:
  "requests (resume E k s) = requests s \<and> (\<forall>j k'. mainpc (resume E k s) \<noteq> MWait j k')"
  by (cases k) (simp_all add: start_search_def do_activate_def Let_def split: option.splits)

lemma steps_left_zero: "steps_left c = 0 \<longleftrightarrow> c = TEnded"
  by (cases c) simp_all

lemma returned_task_step:
  assumes "j < length (tasks s)" "returned (pc (tasks s ! j))"
  shows "returned (pc (tasks (task_step E j s) ! j)) \<and>
         matched (tasks (task_step E j s) ! j) = matched (tasks s ! j) \<and>
         steps_left (pc (tasks (task_step E j s) ! j)) \<le> steps_left (pc (tasks s ! j)) - 1 \<and>
         task_lines j (written (task_step E j s)) @ pending (pc (tasks (task_step E j s) ! j)) =
           task_lines j (written s) @ pending (pc (tasks s ! j))"
  using assms
  by (cases "pc (tasks s ! j)")
     (simp_all add: task_step_def prim_defs Let_def task_lines_snoc)

lemma returned_step:
  assumes "j < length (tasks s)" "returned (pc (tasks s ! j))"
  shows "j < length (tasks (step E th s)) \<and>
         returned (pc (tasks (step E th s) ! j)) \<and>
         matched (tasks (step E th s) ! j) = matched (tasks s ! j) \<and>
         steps_left (pc (tasks (step E th s) ! j)) \<le>
           steps_left (pc (tasks s ! j)) - (if th = TaskT j then 1 else 0) \<and>
         task_lines j (written (step E th s)) @ pending (pc (tasks (step E th s) ! j)) =
           task_lines j (written s) @ pending (pc (tasks s ! j))"
proof (cases th)
  case MainT
  with assms loop_step_length [of s E] show ?thesis
    by (simp add: loop_step_pc loop_step_matched)
next
  case (TaskT i)
  show ?thesis
  proof (cases "i = j")
    case True
    with TaskT returned_task_step [OF assms, of E] assms(1) show ?thesis by simp
  next
    case False
    with TaskT assms show ?thesis by (simp add: task_step_other task_step_lines_other)
  qed
qed

lemma returned_exec:
  "j < length (tasks s) \<Longrightarrow> returned (pc (tasks s ! j)) \<Longrightarrow>
   j < length (tasks (exec E later s)) \<and>
   returned (pc (tasks (exec E later s) ! j)) \<and>
   matched (tasks (exec E later s) ! j) = matched (tasks s ! j) \<and>
   steps_left (pc (tasks (exec E later s) ! j)) \<le>
     steps_left (pc (tasks s ! j)) - count_list later (TaskT j) \<and>
   task_lines j (written (exec E later s)) @ pending (pc (tasks (exec E later s) ! j)) =
     task_lines j (written s) @ pending (pc (tasks s ! j))"
proof (induction later arbitrary: s)
  case Nil
  then show ?case by simp
next
  case (Cons th later)
  from returned_step [OF Cons.prems, of E th]
  have st: "j < length (tasks (step E th s))" "returned (pc (tasks (step E th s) ! j))"
    "matched (tasks (step E th s) ! j) = matched (tasks s ! j)"
    "steps_left (pc (tasks (step E th s) ! j)) \<le>
       steps_left (pc (tasks s ! j)) - (if th = TaskT j then 1 else 0)"
    "task_lines j (written (step E th s)) @ pending (pc (tasks (step E th s) ! j)) =
       task_lines j (written s) @ pending (pc (tasks s ! j))"
    by simp_all
  from Cons.IH [OF st(1,2)] st(3,4,5) show ?case
    by (auto split: if_splits)
qed

lemma inv_tableD: "inv s \<Longrightarrow> lastResults s = last_published (tasks s)"
  by (simp add: inv_def inv_rest_def inv_table_def)

lemma return_step:
  assumes "j < length (tasks s)" "pc (tasks s ! j) = TCall p"
    "next_step (onSearch E) p (cancelled (tasks s ! j)) = Return err"
  shows "pc (tasks (task_step E j s) ! j) = TPublish \<and>
         matched (tasks (task_step E j s) ! j) = matched (tasks s ! j) \<and>
         written (task_step E j s) = written s \<and>
         lastResults (task_step E j s) = lastResults s \<and>
         logs (task_step E j s) = logs s @ (case err of None \<Rightarrow> [] | Some e \<Rightarrow> [LSearchFailed e])"
  using assms
  by (simp add: task_step_def prim_defs Let_def split: option.splits)

lemma activate_settles:
  assumes "inv s" "mainpc s = MRead" "requests s = l # rest" "command_of E l = CActivate i"
    "unat i < length (lastResults s)"
    "\<forall>j. searchCancel s = Some j \<longrightarrow> ended (tasks s ! j)"
  shows "activated (if searchCancel s = None then loop_step E s else loop_step E (loop_step E s)) =
           activated s @ [lastResults s ! unat i]"
proof (cases "searchCancel s")
  case None
  with assms show ?thesis
    by (simp add: loop_step_read dispatch_command cancelSearch_none do_activate_def Let_def
        split: option.splits)
next
  case (Some j)
  define s1 where "s1 = loop_step E s"
  have s1: "s1 = (logf (LReceived l) (s\<lparr>requests := rest\<rparr>))
       \<lparr>tasks := (tasks s)[j := (tasks s ! j)\<lparr>cancelled := True\<rparr>], mainpc := MWait j (KActivate i)\<rparr>"
    using assms(2,3,4) Some
    by (simp add: s1_def loop_step_read dispatch_command cancelSearch_recorded)
  have inv1: "inv s1" unfolding s1_def using assms(1) by (rule inv_loop_step)
  from assms(6) Some have "ended (tasks s ! j)" by simp
  then have e: "ended (tasks s1 ! j)" by (simp add: s1 ended_iff cancel_flag_pc)
  have m: "mainpc s1 = MWait j (KActivate i)" by (simp add: s1)
  from join_when_ended [OF inv1 m e, of E] assms(5)
  have "activated (loop_step E s1) = activated s @ [lastResults s ! unat i]"
    by (simp add: s1 do_activate_def Let_def split: option.splits)
  with Some show ?thesis by (simp add: s1_def)
qed

lemma returned_published: "returned c \<Longrightarrow> steps_left c \<le> 2 \<Longrightarrow> c = TFinish \<or> c = TClose \<or> c = TEnded"
  by (cases c) simp_all

lemma loop_step_fresh:
  "length (tasks s) \<le> j \<Longrightarrow> j < length (tasks (loop_step E s)) \<Longrightarrow>
   pc (tasks (loop_step E s) ! j) = TClear \<and> matched (tasks (loop_step E s) ! j) = []"
  using loop_frame_loop_step [of s E] by (simp add: loop_frame_def)

lemma loop_step_query:
  "j < length (tasks s) \<Longrightarrow> query (tasks (loop_step E s) ! j) = query (tasks s ! j)"
  using loop_frame_loop_step [of s E] by (simp add: loop_frame_def)

text \<open>
  A property of single goroutines that only looks at where the goroutine stands, what it
  has matched and its query, that holds before \<^verbatim>\<open>Clear\<close>, and that each step of the
  goroutine keeps, holds of all goroutines in all reachable states.
\<close>

lemma all_tasks_step:
  assumes cong: "\<And>t u. pc t = pc u \<Longrightarrow> matched t = matched u \<Longrightarrow> query t = query u \<Longrightarrow> P t \<Longrightarrow> P u"
    and fresh: "\<And>t. pc t = TClear \<Longrightarrow> matched t = [] \<Longrightarrow> P t"
    and stp: "\<And>s j. j < length (tasks s) \<Longrightarrow> P (tasks s ! j) \<Longrightarrow> P (tasks (task_step E j s) ! j)"
    and all: "\<forall>j < length (tasks s). P (tasks s ! j)"
  shows "\<forall>j < length (tasks (step E th s)). P (tasks (step E th s) ! j)"
proof (intro allI impI)
  fix j assume j: "j < length (tasks (step E th s))"
  show "P (tasks (step E th s) ! j)"
  proof (cases th)
    case MainT
    show ?thesis
    proof (cases "j < length (tasks s)")
      case True
      with all have "P (tasks s ! j)" by blast
      with True MainT show ?thesis
        by (auto intro: cong [of "tasks s ! j"] simp: loop_step_pc loop_step_matched loop_step_query)
    next
      case False
      with j MainT loop_step_fresh [of s j E] show ?thesis by (simp add: fresh)
    qed
  next
    case (TaskT i)
    with j have js: "j < length (tasks s)" by simp
    with all have p: "P (tasks s ! j)" by blast
    show ?thesis
    proof (cases "i = j")
      case True
      with TaskT stp [OF js p] show ?thesis by simp
    next
      case False
      with TaskT p show ?thesis by (simp add: task_step_other)
    qed
  qed
qed

lemma all_tasks_exec:
  assumes cong: "\<And>t u. pc t = pc u \<Longrightarrow> matched t = matched u \<Longrightarrow> query t = query u \<Longrightarrow> P t \<Longrightarrow> P u"
    and fresh: "\<And>t. pc t = TClear \<Longrightarrow> matched t = [] \<Longrightarrow> P t"
    and stp: "\<And>s j. j < length (tasks s) \<Longrightarrow> P (tasks s ! j) \<Longrightarrow> P (tasks (task_step E j s) ! j)"
  shows "(\<forall>j < length (tasks s). P (tasks s ! j)) \<Longrightarrow>
         \<forall>j < length (tasks (exec E sched s)). P (tasks (exec E sched s) ! j)"
proof (induction sched arbitrary: s)
  case Nil
  then show ?case by simp
next
  case (Cons th sched)
  have "\<forall>j < length (tasks (step E th s)). P (tasks (step E th s) ! j)"
  proof (rule all_tasks_step [of P E s th])
    fix t u :: "'a task"
    assume "pc t = pc u" "matched t = matched u" "query t = query u" "P t"
    then show "P u" by (rule cong)
  next
    fix t :: "'a task"
    assume "pc t = TClear" "matched t = []"
    then show "P t" by (rule fresh)
  next
    fix s :: "'a state" and j
    assume "j < length (tasks s)" "P (tasks s ! j)"
    then show "P (tasks (task_step E j s) ! j)" by (rule stp)
  next
    show "\<forall>j < length (tasks s). P (tasks s ! j)" by (rule Cons.prems)
  qed
  from Cons.IH [OF this] show ?case by simp
qed

lemma all_tasks_reachable:
  assumes cong: "\<And>t u. pc t = pc u \<Longrightarrow> matched t = matched u \<Longrightarrow> query t = query u \<Longrightarrow> P t \<Longrightarrow> P u"
    and fresh: "\<And>t. pc t = TClear \<Longrightarrow> matched t = [] \<Longrightarrow> P t"
    and stp: "\<And>s j. j < length (tasks s) \<Longrightarrow> P (tasks s ! j) \<Longrightarrow> P (tasks (task_step E j s) ! j)"
    and j: "j < length (tasks (exec E sched (init lines)))"
  shows "P (tasks (exec E sched (init lines)) ! j)"
proof -
  have i: "\<forall>j < length (tasks (init lines :: 'a state)). P (tasks (init lines :: 'a state) ! j)"
    by (simp add: init_def)
  have "\<forall>j < length (tasks (exec E sched (init lines))). P (tasks (exec E sched (init lines)) ! j)"
  proof (rule all_tasks_exec [of P E "init lines" sched])
    fix t u :: "'a task"
    assume "pc t = pc u" "matched t = matched u" "query t = query u" "P t"
    then show "P u" by (rule cong)
  next
    fix t :: "'a task"
    assume "pc t = TClear" "matched t = []"
    then show "P t" by (rule fresh)
  next
    fix s :: "'a state" and j
    assume "j < length (tasks s)" "P (tasks s ! j)"
    then show "P (tasks (task_step E j s) ! j)" by (rule stp)
  next
    show "\<forall>j < length (tasks (init lines :: 'a state)). P (tasks (init lines :: 'a state) ! j)"
      by (rule i)
  qed
  with j show ?thesis by blast
qed

text \<open>The step of a goroutine, seen on the goroutine alone.\<close>

lemma task_step_task:
  assumes "j < length (tasks s)"
  shows "tasks (task_step E j s) ! j =
     (case pc (tasks s ! j) of
        TClear \<Rightarrow> (tasks s ! j)\<lparr>pc := TCall (start (onSearch E) j (query (tasks s ! j)))\<rparr>
      | TCall p \<Rightarrow>
          (case next_step (onSearch E) p (cancelled (tasks s ! j)) of
             Emit sr p' \<Rightarrow> (tasks s ! j)\<lparr>matched := matched (tasks s ! j) @ [Name sr], pc := TCall p'\<rparr>
           | Internal p' \<Rightarrow> (tasks s ! j)\<lparr>pc := TCall p'\<rparr>
           | Return err \<Rightarrow> (tasks s ! j)\<lparr>pc := TPublish\<rparr>)
      | TPublish \<Rightarrow> (tasks s ! j)\<lparr>pc := TFinish\<rparr>
      | TFinish \<Rightarrow> (tasks s ! j)\<lparr>pc := TClose\<rparr>
      | TClose \<Rightarrow> (tasks s ! j)\<lparr>pc := TEnded\<rparr>
      | TEnded \<Rightarrow> tasks s ! j)"
  using assms
  by (simp add: task_step_def prim_defs Let_def split: tpc.splits pstep.splits option.splits)

lemma gopass_start [simp]: "start (gopass_OnSearch T A R) = GStart"
  by (simp add: gopass_OnSearch_def)

lemma gopass_next [simp]: "next_step (gopass_OnSearch T A R) = gopass_step T A R"
  by (simp add: gopass_OnSearch_def)

lemma exact_of_cong [simp]:
  "exact_of T A (t\<lparr>pc := c\<rparr>) = exact_of T A t"
  "exact_of T A (t\<lparr>matched := m\<rparr>) = exact_of T A t"
  by (simp_all add: exact_of_def lowerQuery_of_def)

lemma exact_of_length: "length (exact_of T A t) \<le> 1"
  by (simp add: exact_of_def split: option.splits)

lemma gp_count_step:
  assumes E: "onSearch E = gopass_OnSearch T A R"
    and j: "j < length (tasks s)" and ok: "gp_count T A (tasks s ! j)"
  shows "gp_count T A (tasks (task_step E j s) ! j)"
proof (cases "pc (tasks s ! j)")
  case (TCall p)
  show ?thesis
  proof (cases p)
    case (GStart n q)
    with TCall ok show ?thesis
      by (simp add: task_step_task [OF j] E gp_count_def Let_def maxResults_def
          exact_of_def lowerQuery_of_def password_result_def split: option.splits)
  next
    case (GScan lq todo c)
    show ?thesis
    proof (cases todo)
      case Nil
      with TCall GScan ok show ?thesis
        by (simp add: task_step_task [OF j] E gp_count_def maxResults_def)
    next
      case (Cons x rest)
      obtain l orig where x: "x = (l, orig)" by (cases x)
      with TCall GScan Cons ok show ?thesis
        by (simp add: task_step_task [OF j] E gp_count_def maxResults_def password_result_def)
    qed
  next
    case GBreak
    with TCall ok show ?thesis
      by (simp add: task_step_task [OF j] E gp_count_def)
  qed
qed (use ok in \<open>simp_all add: task_step_task [OF j] E gp_count_def\<close>)

lemma exact_of_query: "query t = query u \<Longrightarrow> exact_of T A t = exact_of T A u"
  by (simp add: exact_of_def lowerQuery_of_def)

lemma gp_count_cong:
  "pc t = pc u \<Longrightarrow> matched t = matched u \<Longrightarrow> query t = query u \<Longrightarrow>
   gp_count T A t \<Longrightarrow> gp_count T A u"
  using exact_of_query [of t u T A]
  by (simp add: gp_count_def split: tpc.splits gstate.splits)

lemma gp_count_reachable:
  assumes "onSearch E = gopass_OnSearch T A R" "j < length (tasks (exec E sched (init lines)))"
  shows "gp_count T A (tasks (exec E sched (init lines)) ! j)"
proof (rule all_tasks_reachable [of "gp_count T A" E, OF _ _ _ assms(2)])
  show "\<And>t u. pc t = pc u \<Longrightarrow> matched t = matched u \<Longrightarrow> query t = query u \<Longrightarrow>
      gp_count T A t \<Longrightarrow> gp_count T A u"
    by (rule gp_count_cong)
  show "\<And>t. pc t = TClear \<Longrightarrow> matched t = [] \<Longrightarrow> gp_count T A t"
    by (simp add: gp_count_def)
  show "\<And>s j. j < length (tasks s) \<Longrightarrow> gp_count T A (tasks s ! j) \<Longrightarrow>
      gp_count T A (tasks (task_step E j s) ! j)"
    using assms(1) by (rule gp_count_step)
qed

lemma gp_count_bound:
  "gp_count T A t \<Longrightarrow> length (matched t) \<le> length (exact_of T A t) + maxResults"
  by (auto simp: gp_count_def maxResults_def split: tpc.splits gstate.splits)

lemma last_published_some: "last_published ts = [] \<or> (\<exists>t \<in> set ts. last_published ts = matched t)"
  by (induction ts) auto

lemma inline_search_bound:
  "length so_far < maxResults \<Longrightarrow> length out = length so_far \<Longrightarrow>
   length (snd (inline_search c lq i es out so_far)) \<le> maxResults \<and>
   length (fst (inline_search c lq i es out so_far)) = length (snd (inline_search c lq i es out so_far))"
proof (induction c lq i es out so_far rule: inline_search.induct)
  case (1 c lq i out so_far)
  then show ?case by simp
next
  case (2 c lq i e es out so_far)
  then show ?case by (auto simp: Let_def maxResults_def)
qed

lemma update_keyed:
  assumes "distinct (map fst acc)" "\<forall>k v. (k, v) \<in> set acc \<longrightarrow> T v = k"
  shows "distinct (map fst (AList.update (T line) line acc)) \<and>
         (\<forall>k v. (k, v) \<in> set (AList.update (T line) line acc) \<longrightarrow> T v = k)"
proof -
  have d: "distinct (map fst (AList.update (T line) line acc))"
    using assms(1) by (rule distinct_update)
  have "T v = k" if "(k, v) \<in> set (AList.update (T line) line acc)" for k v
  proof -
    from that d have "map_of (AList.update (T line) line acc) k = Some v" by simp
    then have "((map_of acc)(T line \<mapsto> line)) k = Some v" by (simp only: update_conv')
    then show ?thesis
    proof (cases "k = T line")
      case True
      with \<open>((map_of acc)(T line \<mapsto> line)) k = Some v\<close> show ?thesis by simp
    next
      case False
      with \<open>((map_of acc)(T line \<mapsto> line)) k = Some v\<close> have "map_of acc k = Some v" by simp
      then have "(k, v) \<in> set acc" by (rule map_of_SomeD)
      with assms(2) show ?thesis by blast
    qed
  qed
  with d show ?thesis by blast
qed

lemma fold_keyed:
  "distinct (map fst acc) \<Longrightarrow> \<forall>k v. (k, v) \<in> set acc \<longrightarrow> T v = k \<Longrightarrow>
   distinct (map fst (fold (\<lambda>line entries.
       if line \<noteq> [] then AList.update (T line) line entries else entries) lines acc)) \<and>
   (\<forall>k v. (k, v) \<in> set (fold (\<lambda>line entries.
       if line \<noteq> [] then AList.update (T line) line entries else entries) lines acc) \<longrightarrow> T v = k)"
proof (induction lines arbitrary: acc)
  case Nil
  then show ?case by simp
next
  case (Cons line lines)
  show ?case
  proof (cases "line = []")
    case True
    with Cons.IH [OF Cons.prems] show ?thesis by simp
  next
    case False
    from update_keyed [OF Cons.prems, of line]
    have "distinct (map fst (AList.update (T line) line acc))"
      "\<forall>k v. (k, v) \<in> set (AList.update (T line) line acc) \<longrightarrow> T v = k" by blast+
    from Cons.IH [OF this] False show ?thesis by simp
  qed
qed

lemma loadEntries_keyed:
  "distinct (map fst (loadEntries T out)) \<and>
   (\<forall>k v. (k, v) \<in> set (loadEntries T out) \<longrightarrow> T v = k)"
proof (cases out)
  case None
  then show ?thesis by (simp add: loadEntries_def)
next
  case (Some lines)
  from fold_keyed [of "[]" T lines] Some show ?thesis
    by (simp add: loadEntries_def)
qed

lemma scanned_of_pc [simp]: "scanned_of T A (t\<lparr>pc := c\<rparr>) = scanned_of T A t"
  by (simp add: scanned_of_def)

lemma lowerQuery_of_upd [simp]:
  "lowerQuery_of T (t\<lparr>pc := c\<rparr>) = lowerQuery_of T t"
  "lowerQuery_of T (t\<lparr>matched := m\<rparr>) = lowerQuery_of T t"
  by (simp_all add: lowerQuery_of_def)

lemma scanned_ok_pc [simp]: "scanned_ok T A (t\<lparr>pc := c\<rparr>) = scanned_ok T A t"
  by (simp add: scanned_ok_def)

lemma scanned_ok_start:
  "matched t = [] \<Longrightarrow> scanned_ok T A (t\<lparr>matched := exact_of T A t\<rparr>)"
  by (simp add: scanned_ok_def scanned_of_def)

lemma scanned_of_snoc:
  "scanned_ok T A t \<Longrightarrow>
   scanned_of T A (t\<lparr>matched := matched t @ [v]\<rparr>) = scanned_of T A t @ [v]"
proof -
  assume "scanned_ok T A t"
  then have "matched t = exact_of T A t @ scanned_of T A t" by (simp add: scanned_ok_def)
  then have "length (exact_of T A t) \<le> length (matched t)"
    by (metis length_append le_add1)
  then show ?thesis by (simp add: scanned_of_def)
qed

lemma scanned_ok_snoc:
  assumes "scanned_ok T A t" "v \<notin> set (scanned_of T A t)" "(T v, v) \<in> set A"
    "T v \<noteq> lowerQuery_of T t" "lowerQuery_of T t = [] \<or> Contains (T v) (lowerQuery_of T t)"
  shows "scanned_ok T A (t\<lparr>matched := matched t @ [v]\<rparr>)"
  using assms scanned_of_snoc [OF assms(1), of v]
  by (auto simp: scanned_ok_def)

lemma gp_ok_step:
  assumes E: "onSearch E = gopass_OnSearch T A R"
    and vis: "\<forall>n. visits A (R n)"
    and key: "\<forall>k v. (k, v) \<in> set A \<longrightarrow> T v = k"
    and j: "j < length (tasks s)" and ok: "gp_ok T A (tasks s ! j)"
  shows "gp_ok T A (tasks (task_step E j s) ! j)"
proof (cases "pc (tasks s ! j)")
  case (TCall p)
  define t where "t = tasks s ! j"
  show ?thesis
  proof (cases p)
    case (GStart n q)
    with TCall ok have q: "q = query t" "matched t = []" by (simp_all add: gp_ok_def t_def)
    from vis have v: "distinct (map fst (R n))" "set (R n) \<subseteq> set A" by (auto simp: visits_def)
    show ?thesis
    proof (cases "map_of A (T (TrimPrefix q ''gp ''))")
      case None
      with q have "exact_of T A t = []" by (simp add: exact_of_def lowerQuery_of_def)
      with scanned_ok_start [OF q(2), of T A] q(2) have "scanned_ok T A t"
        by (simp add: scanned_ok_def scanned_of_def)
      with TCall GStart None q v show ?thesis
        by (simp add: task_step_task [OF j] E gp_ok_def Let_def t_def [symmetric]
            lowerQuery_of_def scanned_of_def)
    next
      case (Some e)
      with q have ex: "exact_of T A t = [e]" by (simp add: exact_of_def lowerQuery_of_def)
      with scanned_ok_start [OF q(2), of T A] have "scanned_ok T A (t\<lparr>matched := [e]\<rparr>)" by simp
      with TCall GStart Some q v ex show ?thesis
        by (simp add: task_step_task [OF j] E gp_ok_def Let_def t_def [symmetric]
            lowerQuery_of_def scanned_of_def password_result_def)
    qed
  next
    case (GScan lq todo c)
    with TCall ok have inv: "lq = lowerQuery_of T t" "distinct (map fst todo)" "set todo \<subseteq> set A"
      "scanned_ok T A t" "\<forall>v \<in> set (scanned_of T A t). T v \<notin> fst ` set todo"
      by (simp_all add: gp_ok_def t_def)
    show ?thesis
    proof (cases todo)
      case Nil
      with TCall GScan inv show ?thesis
        by (simp add: task_step_task [OF j] E gp_ok_def t_def [symmetric])
    next
      case (Cons x rest)
      obtain l orig where x: "x = (l, orig)" by (cases x)
      from inv(2,3) Cons x have r: "distinct (map fst rest)" "set rest \<subseteq> set A"
        "l \<notin> fst ` set rest" "(l, orig) \<in> set A" by auto
      from key r(4) have lo: "T orig = l" by blast
      from inv(5) Cons have r5: "\<forall>v \<in> set (scanned_of T A t). T v \<notin> fst ` set rest" by auto
      from inv(5) Cons x lo have fresh: "orig \<notin> set (scanned_of T A t)" by auto
      have emit: "scanned_ok T A (t\<lparr>matched := matched t @ [orig]\<rparr>)"
        if "l \<noteq> lq" "lq = [] \<or> Contains l lq"
        using scanned_ok_snoc [OF inv(4) fresh, of ] r(4) lo that inv(1) by simp
      have emit5: "\<forall>v \<in> set (scanned_of T A (t\<lparr>matched := matched t @ [orig]\<rparr>)). T v \<notin> fst ` set rest"
        using scanned_of_snoc [OF inv(4), of orig] r5 r(3) lo by auto
      from TCall GScan Cons x inv(1,4) r r5 emit emit5 show ?thesis
        by (simp add: task_step_task [OF j] E gp_ok_def t_def [symmetric] password_result_def)
    qed
  next
    case GBreak
    with TCall ok show ?thesis
      by (simp add: task_step_task [OF j] E gp_ok_def)
  qed
qed (use ok in \<open>simp_all add: task_step_task [OF j] E gp_ok_def scanned_ok_def scanned_of_def\<close>)

lemma gp_ok_cong:
  "pc t = pc u \<Longrightarrow> matched t = matched u \<Longrightarrow> query t = query u \<Longrightarrow>
   gp_ok T A t \<Longrightarrow> gp_ok T A u"
  by (simp add: gp_ok_def scanned_ok_def scanned_of_def exact_of_def lowerQuery_of_def
      split: tpc.splits gstate.splits)

lemma gp_ok_reachable:
  assumes "onSearch E = gopass_OnSearch T A R" "\<forall>n. visits A (R n)"
    "\<forall>k v. (k, v) \<in> set A \<longrightarrow> T v = k"
    "j < length (tasks (exec E sched (init lines)))"
  shows "gp_ok T A (tasks (exec E sched (init lines)) ! j)"
proof (rule all_tasks_reachable [of "gp_ok T A" E, OF _ _ _ assms(4)])
  show "\<And>t u. pc t = pc u \<Longrightarrow> matched t = matched u \<Longrightarrow> query t = query u \<Longrightarrow>
      gp_ok T A t \<Longrightarrow> gp_ok T A u"
    by (rule gp_ok_cong)
  show "\<And>t. pc t = TClear \<Longrightarrow> matched t = [] \<Longrightarrow> gp_ok T A t"
    by (simp add: gp_ok_def)
  show "\<And>s j. j < length (tasks s) \<Longrightarrow> gp_ok T A (tasks s ! j) \<Longrightarrow>
      gp_ok T A (tasks (task_step E j s) ! j)"
    using assms(1,2,3) by (rule gp_ok_step)
qed

lemma gp_ok_before: "gp_ok T A t \<Longrightarrow> \<not> looked_up (pc t) \<Longrightarrow> matched t = []"
  by (cases "pc t" rule: looked_up.cases) (simp_all add: gp_ok_def)

lemma gp_ok_after: "gp_ok T A t \<Longrightarrow> looked_up (pc t) \<Longrightarrow> scanned_ok T A t"
  by (cases "pc t" rule: looked_up.cases) (simp_all add: gp_ok_def)

lemma gp_ok_facts:
  assumes ok: "gp_ok T A t" and key: "\<forall>k v. (k, v) \<in> set A \<longrightarrow> T v = k"
  shows "distinct (matched t) \<and>
     (\<forall>v \<in> set (matched t). (T v, v) \<in> set A \<and>
        (T v = lowerQuery_of T t \<or> lowerQuery_of T t = [] \<or> Contains (T v) (lowerQuery_of T t))) \<and>
     (\<forall>e. map_of A (lowerQuery_of T t) = Some e \<longrightarrow>
        (looked_up (pc t) \<longrightarrow> matched t \<noteq> []) \<and>
        (matched t \<noteq> [] \<longrightarrow> hd (matched t) = e \<and> e \<notin> set (tl (matched t))))"
proof (cases "looked_up (pc t)")
  case False
  with gp_ok_before [OF ok] show ?thesis by simp
next
  case True
  from gp_ok_after [OF ok True]
  have m: "matched t = exact_of T A t @ scanned_of T A t"
    and d: "distinct (scanned_of T A t)"
    and sc: "\<forall>v \<in> set (scanned_of T A t).
        (T v, v) \<in> set A \<and> T v \<noteq> lowerQuery_of T t \<and>
        (lowerQuery_of T t = [] \<or> Contains (T v) (lowerQuery_of T t))"
    by (simp_all add: scanned_ok_def)
  show ?thesis
  proof (cases "map_of A (lowerQuery_of T t)")
    case None
    then have "exact_of T A t = []" by (simp add: exact_of_def)
    with m d sc None show ?thesis by auto
  next
    case (Some e)
    then have ex: "exact_of T A t = [e]" by (simp add: exact_of_def)
    from Some have ein: "(lowerQuery_of T t, e) \<in> set A" by (rule map_of_SomeD)
    with key have te: "T e = lowerQuery_of T t" by blast
    with sc have "e \<notin> set (scanned_of T A t)" by auto
    with m ex d sc ein te Some show ?thesis by auto
  qed
qed

lemma resume_requests [simp]: "requests (resume E k t) = requests t"
  by (cases k) (simp_all add: start_search_def do_activate_def Let_def split: option.splits)

lemma cancelSearch_requests [simp]: "requests (cancelSearch E k t) = requests t"
  by (simp add: cancelSearch_def split: option.splits)

lemma dispatch_requests [simp]: "requests (dispatch E l t) = requests t"
  by (simp add: dispatch_def Let_def split: option.splits)

lemma loop_step_consumes:
  "mainpc s = MRead \<Longrightarrow> requests s = l # rest \<Longrightarrow> requests (loop_step E s) = rest"
  by (simp add: loop_step_read)

lemma silent_task_step:
  assumes "silent s"
  shows "written (task_step E i s) = written s \<and> silent (task_step E i s)"
proof (cases "i < length (tasks s)")
  case False
  with assms show ?thesis by (simp add: task_step_out_of_range)
next
  case True
  with assms have w: "wrote_finished (pc (tasks s ! i))" by (simp add: silent_def)
  then have ev: "task_event E (tasks s ! i) = []"
    by (cases "pc (tasks s ! i)") (simp_all add: task_event_def)
  have "wrote_finished (pc (tasks (task_step E i s) ! j))" if "j < length (tasks s)" for j
  proof (cases "j = i")
    case True
    with w that show ?thesis
      by (cases "pc (tasks s ! i)") (simp_all add: task_step_task)
  next
    case False
    with assms that show ?thesis by (simp add: task_step_other silent_def)
  qed
  with ev True show ?thesis by (simp add: task_step_written silent_def)
qed

lemma silent_interrupt_step:
  assumes inv: "inv s" and h: "handling s0 (KInterrupt True) rest s"
    and w: "requests s = rest \<longrightarrow> written s = out \<and> silent s"
    and r: "requests (step E th s) = rest"
  shows "written (step E th s) = out \<and> silent (step E th s)"
proof (cases th)
  case (TaskT i)
  with r w silent_task_step [of s E i] show ?thesis by simp
next
  case MainT
  have req: "requests s = rest"
  proof (rule ccontr)
    assume "requests s \<noteq> rest"
    with h have "length (requests s) < length rest" by (simp add: handling_def)
    moreover from loop_step_requests [of E s]
    have "length (requests (loop_step E s)) \<le> length (requests s)" by auto
    ultimately show False using r MainT by simp
  qed
  with w have ws: "written s = out" "silent s" by simp_all
  from h req have cases: "(\<exists>j. mainpc s = MWait j (KInterrupt True)) \<or> mainpc s = MRead \<or> mainpc s = MDone"
    by (auto simp: handling_def)
  then show ?thesis
  proof (elim disjE exE)
    fix j assume m: "mainpc s = MWait j (KInterrupt True)"
    show ?thesis
    proof (cases "j < length (tasks s) \<and> ended (tasks s ! j)")
      case False
      with m have "loop_step E s = s" by (rule loop_step_blocked)
      with ws MainT show ?thesis by simp
    next
      case True
      with m have "loop_step E s = (s\<lparr>searchCancel := None\<rparr>)\<lparr>mainpc := MRead\<rparr>"
        by (simp add: loop_step_def join_def)
      with ws MainT show ?thesis by (simp add: silent_def)
    qed
  next
    assume m: "mainpc s = MRead"
    show ?thesis
    proof (cases rest)
      case Nil
      with m req have "loop_step E s = s\<lparr>mainpc := MDone\<rparr>" by (simp add: loop_step_def)
      with ws MainT show ?thesis by (simp add: silent_def)
    next
      case (Cons l' r')
      with m req have "requests (loop_step E s) = r'" by (simp add: loop_step_consumes)
      with r MainT Cons show ?thesis by simp
    qed
  next
    assume "mainpc s = MDone"
    then have "loop_step E s = s" by (simp add: loop_step_def)
    with ws MainT show ?thesis by simp
  qed
qed

lemma silent_interrupt_exec:
  "inv s \<Longrightarrow> handling s0 (KInterrupt True) rest s \<Longrightarrow>
   requests s = rest \<longrightarrow> written s = out \<and> silent s \<Longrightarrow>
   requests (exec E sched s) = rest \<Longrightarrow>
   written (exec E sched s) = out \<and> silent (exec E sched s)"
proof (induction sched arbitrary: s)
  case Nil
  then show ?case by simp
next
  case (Cons th sched)
  have i: "inv (step E th s)" using Cons.prems(1) by (rule inv_step)
  have h: "handling s0 (KInterrupt True) rest (step E th s)"
    using Cons.prems(1,2) by (cases th) (simp_all add: handling_loop_step handling_task_step)
  have w: "requests (step E th s) = rest \<longrightarrow> written (step E th s) = out \<and> silent (step E th s)"
    using silent_interrupt_step [OF Cons.prems(1,2,3)] by blast
  from Cons.IH [OF i h w] Cons.prems(4) show ?case by simp
qed

lemma unfinished_no_finished:
  assumes "block_ok t ls" "\<not> wrote_finished (pc t)"
  shows "count_list ls Finished = 0"
proof -
  from block_ok_cases [OF assms(1)] obtain as where as: "appends_from 0 as (matched t)"
    and ls: "ls = (case pc t of TClear \<Rightarrow> [] | TCall p \<Rightarrow> Clear # as | TPublish \<Rightarrow> Clear # as
                 | TFinish \<Rightarrow> Clear # as | TClose \<Rightarrow> Clear # as @ [Finished]
                 | TEnded \<Rightarrow> Clear # as @ [Finished])"
    by blast
  from count_appends [OF appends_from_all [OF as]] ls assms(2) show ?thesis
    by (cases "pc t") simp_all
qed

lemma interrupt_handling:
  assumes "s = exec E sched (init lines)"
    and "mainpc s = MRead"
    and "requests s = l # rest"
    and "command_of E l = CInterrupt"
  shows
    "(case searchCancel s of
        None \<Rightarrow>
          written (loop_step E s) = written s @ [(Loop, Finished)] \<and>
          mainpc (loop_step E s) = MRead \<and> requests (loop_step E s) = rest
      | Some j \<Rightarrow>
          written (loop_step E s) = written s \<and>
          mainpc (loop_step E s) = MWait j (KInterrupt True) \<and>
          cancelled (tasks (loop_step E s) ! j)) \<and>
     (\<forall>later. requests (exec E later (loop_step E s)) = rest \<longrightarrow>
        length (tasks (exec E later (loop_step E s))) = length (tasks s) \<and>
        (case searchCancel s of
           None \<Rightarrow>
             loop_lines (written (exec E later (loop_step E s))) =
               loop_lines (written s) @ [Finished] \<and>
             (\<forall>i < length (tasks s).
                ended (tasks (exec E later (loop_step E s)) ! i) \<and>
                task_lines i (written (exec E later (loop_step E s))) = task_lines i (written s))
         | Some j \<Rightarrow>
             loop_lines (written (exec E later (loop_step E s))) = loop_lines (written s) \<and>
             (mainpc (exec E later (loop_step E s)) = MWait j (KInterrupt True) \<or>
              mainpc (exec E later (loop_step E s)) \<noteq> MWait j (KInterrupt True) \<and>
              ended (tasks (exec E later (loop_step E s)) ! j) \<and>
              count_list (task_lines j (written (exec E later (loop_step E s)))) Finished = 1))) \<and>
     (\<forall>later j.
        requests (exec E later (loop_step E s)) = rest \<and>
        mainpc (exec E later (loop_step E s)) = MWait j (KInterrupt True) \<and>
        ended (tasks (exec E later (loop_step E s)) ! j) \<longrightarrow>
          mainpc (loop_step E (exec E later (loop_step E s))) = MRead \<and>
          requests (loop_step E (exec E later (loop_step E s))) = rest \<and>
          written (loop_step E (exec E later (loop_step E s))) =
            written (exec E later (loop_step E s)))"
proof -
  have inv: "inv s" unfolding assms(1) by (rule inv_reachable)
  define k where "k = KInterrupt (searchCancel s \<noteq> None)"
  have k: "cont_of (command_of E l) (searchCancel s \<noteq> None) = Some k" "\<not> spawns k"
    by (simp_all add: assms(4) k_def)
  have first: "case searchCancel s of
        None \<Rightarrow>
          written (loop_step E s) = written s @ [(Loop, Finished)] \<and>
          mainpc (loop_step E s) = MRead \<and> requests (loop_step E s) = rest
      | Some j \<Rightarrow>
          written (loop_step E s) = written s \<and>
          mainpc (loop_step E s) = MWait j (KInterrupt True) \<and>
          cancelled (tasks (loop_step E s) ! j)"
  proof (cases "searchCancel s")
    case None
    with assms(2,3,4) show ?thesis
      by (simp add: loop_step_read dispatch_command cancelSearch_none)
  next
    case (Some j)
    from inv Some have "j < length (tasks s)" by (auto simp: inv_def inv_alive_def)
    with Some assms(2,3,4) show ?thesis
      by (simp add: loop_step_read dispatch_command cancelSearch_recorded)
  qed
  have second: "length (tasks (exec E later (loop_step E s))) = length (tasks s) \<and>
        (case searchCancel s of
           None \<Rightarrow>
             loop_lines (written (exec E later (loop_step E s))) =
               loop_lines (written s) @ [Finished] \<and>
             (\<forall>i < length (tasks s).
                ended (tasks (exec E later (loop_step E s)) ! i) \<and>
                task_lines i (written (exec E later (loop_step E s))) = task_lines i (written s))
         | Some j \<Rightarrow>
             loop_lines (written (exec E later (loop_step E s))) = loop_lines (written s) \<and>
             (mainpc (exec E later (loop_step E s)) = MWait j (KInterrupt True) \<or>
              mainpc (exec E later (loop_step E s)) \<noteq> MWait j (KInterrupt True) \<and>
              ended (tasks (exec E later (loop_step E s)) ! j) \<and>
              count_list (task_lines j (written (exec E later (loop_step E s)))) Finished = 1))"
    if r: "requests (exec E later (loop_step E s)) = rest" for later
  proof -
    define s' where "s' = exec E later (loop_step E s)"
    have inv': "inv s'" unfolding s'_def by (intro inv_exec inv_loop_step inv)
    from handling_run [OF inv assms(2,3) k, of later] r
    have len: "length (tasks s') = length (tasks s)"
      and h: "((\<exists>j. mainpc s' = MWait j k \<and> searchCancel s = Some j) \<and> loop_lines (written s') = loop_lines (written s) \<and>
          activated s' = activated s) \<or>
         ((mainpc s' = MRead \<or> mainpc s' = MDone) \<and> quiet s' \<and>
          loop_lines (written s') = loop_lines (written s) @ loop_replies k \<and>
          activated s' = activated s @ handler_calls k (lastResults s'))"
      by (simp_all add: handling_def s'_def)
    show ?thesis
    proof (cases "searchCancel s")
      case None
      then have kf: "k = KInterrupt False" by (simp add: k_def)
      from inv None have q: "\<forall>i < length (tasks s). ended (tasks s ! i)"
        by (auto simp: inv_def inv_alive_def)
      have st: "ended (tasks s' ! i) \<and> task_lines i (written s') = task_lines i (written s)"
        if "i < length (tasks s)" for i
        using exec_ended_stable [of i s E "MainT # later"] that q by (simp add: s'_def)
      from h None kf st len show ?thesis by (auto simp: s'_def)
    next
      case (Some j)
      then have kt: "k = KInterrupt True" by (simp add: k_def)
      from inv Some have j: "Suc j = length (tasks s)" by (auto simp: inv_def inv_alive_def)
      from h show ?thesis
      proof
        assume w: "(\<exists>j. mainpc s' = MWait j k \<and> searchCancel s = Some j) \<and> loop_lines (written s') = loop_lines (written s) \<and>
          activated s' = activated s"
        with Some have "mainpc s' = MWait j k" by auto
        with w len Some kt show ?thesis by (simp add: s'_def)
      next
        assume d: "(mainpc s' = MRead \<or> mainpc s' = MDone) \<and> quiet s' \<and>
          loop_lines (written s') = loop_lines (written s) @ loop_replies k \<and>
          activated s' = activated s @ handler_calls k (lastResults s')"
        with len j have e: "ended (tasks s' ! j)" by (simp add: quiet_def)
        from inv_shapeD [OF inv', of j] len j have "block_ok (tasks s' ! j) (task_lines j (written s'))"
          by simp
        from ended_one_finished [OF this e] d e len Some kt show ?thesis
          by (auto simp: s'_def)
      qed
    qed
  qed
  have third: "mainpc (loop_step E (exec E later (loop_step E s))) = MRead \<and>
          requests (loop_step E (exec E later (loop_step E s))) = rest \<and>
          written (loop_step E (exec E later (loop_step E s))) =
            written (exec E later (loop_step E s))"
    if "requests (exec E later (loop_step E s)) = rest \<and>
        mainpc (exec E later (loop_step E s)) = MWait j (KInterrupt True) \<and>
        ended (tasks (exec E later (loop_step E s)) ! j)" for later j
  proof -
    have "inv (exec E later (loop_step E s))" by (intro inv_exec inv_loop_step inv)
    from join_when_ended [OF this, of j "KInterrupt True" E] that show ?thesis by simp
  qed
  from first second third show ?thesis by blast
qed

lemma store_visits: "\<forall>n. visits (loadEntries ascii_lower (Some store_lines)) (store_order n)"
  using loadEntries_keyed [of ascii_lower "Some store_lines"]
  by (simp add: visits_def store_order_def distinct_rev rev_map [symmetric])


section \<open>The claims\<close>

text \<open>
  C7. On the input trace that holds the single line \<^verbatim>\<open>"Exit"\<close>, under every schedule and
  with any callbacks: once the command loop has moved, the output is exactly one
  \<^verbatim>\<open>Finished\<close> line, written by the loop, and the loop has returned; before that nothing
  is written. No search goroutine is ever spawned, so the search callback is never
  entered, and the activation callback is never called.
\<close>

theorem exit_alone:
  "written (exec E sched (init [exit_literal])) = (if MainT \<in> set sched then [(Loop, Finished)] else []) \<and>
   (mainpc (exec E sched (init [exit_literal])) = MDone \<longleftrightarrow> MainT \<in> set sched) \<and>
   tasks (exec E sched (init [exit_literal])) = [] \<and>
   searched (exec E sched (init [exit_literal])) = [] \<and>
   activated (exec E sched (init [exit_literal])) = []"
  unfolding exec_exit_alone by (simp add: after_exit_def init_def)



text \<open>
  C3. The lines of one search goroutine, in every reachable state: none before its
  \<^verbatim>\<open>Clear\<close>; then \<^verbatim>\<open>Clear\<close> followed by \<open>Append\<close>s only; and from the deferred
  \<^verbatim>\<open>respondRaw\<close> on, \<^verbatim>\<open>Clear\<close>, the \<open>Append\<close>s and one \<^verbatim>\<open>Finished\<close>. Once the goroutine
  has ended its lines never change again, whatever runs afterwards, so that \<^verbatim>\<open>Finished\<close>
  is its last line.
\<close>

theorem search_replies_ordered:
  "j < length (tasks (exec E sched (init lines))) \<Longrightarrow>
   \<exists>as. (\<forall>a \<in> set as. is_append a) \<and>
     task_lines j (written (exec E sched (init lines))) =
       (case pc (tasks (exec E sched (init lines)) ! j) of
          TClear \<Rightarrow> []
        | TCall p \<Rightarrow> Clear # as
        | TPublish \<Rightarrow> Clear # as
        | TFinish \<Rightarrow> Clear # as
        | TClose \<Rightarrow> Clear # as @ [Finished]
        | TEnded \<Rightarrow> Clear # as @ [Finished]) \<and>
     (ended (tasks (exec E sched (init lines)) ! j) \<longrightarrow>
        (\<forall>more. task_lines j (written (exec E more (exec E sched (init lines)))) =
                Clear # as @ [Finished]))"
proof -
  assume j: "j < length (tasks (exec E sched (init lines)))"
  define s where "s = exec E sched (init lines)"
  from j reach_shape [of j E sched lines] have "block_ok (tasks s ! j) (task_lines j (written s))"
    by (simp add: s_def)
  from block_ok_cases [OF this] obtain as where as: "appends_from 0 as (matched (tasks s ! j))"
    and ls: "task_lines j (written s) =
      (case pc (tasks s ! j) of TClear \<Rightarrow> [] | TCall p \<Rightarrow> Clear # as | TPublish \<Rightarrow> Clear # as
       | TFinish \<Rightarrow> Clear # as | TClose \<Rightarrow> Clear # as @ [Finished]
       | TEnded \<Rightarrow> Clear # as @ [Finished])"
    by blast
  have "task_lines j (written (exec E more s)) = Clear # as @ [Finished]"
    if "ended (tasks s ! j)" for more
    using exec_ended_stable [of j s E more] that j ls by (simp add: s_def [symmetric] ended_iff)
  with appends_from_all [OF as] ls show ?thesis
    unfolding s_def by blast
qed

text \<open>
  C3, at the search of the test suite run to its end.
\<close>

theorem search_replies_ordered_witness:
  "0 < length (tasks (exec email_engine search_done (init email_lines))) \<and>
   ended (tasks (exec email_engine search_done (init email_lines)) ! 0) \<and>
   (\<exists>as. (\<forall>a \<in> set as. is_append a) \<and>
      (\<forall>more. task_lines 0 (written (exec email_engine more
                 (exec email_engine search_done (init email_lines)))) = Clear # as @ [Finished]))"
proof -
  have h: "0 < length (tasks (exec email_engine search_done (init email_lines)))"
    by code_simp
  have e: "ended (tasks (exec email_engine search_done (init email_lines)) ! 0)"
    by code_simp
  from search_replies_ordered [OF h] e h show ?thesis by blast
qed

text \<open>
  C4, as stated, fails for a callback that yields more than \<open>2\<^sup>3\<^sup>2\<close> results: the id is
  \<^verbatim>\<open>uint32(len(matched))\<close>, so the \<open>Append\<close> number \<open>2\<^sup>3\<^sup>2\<close> (counting from 0) carries id 0.
\<close>

theorem append_id_wraps:
  "2 ^ 32 < length (filter is_append (task_lines 0
          (written (exec flood_engine (flood_sched (2 ^ 32 + 1)) (init [search_line ''q''])))))
   \<and> rid (filter is_append (task_lines 0
          (written (exec flood_engine (flood_sched (2 ^ 32 + 1)) (init [search_line ''q''])))) !
        (2 ^ 32)) = 0
   \<and> unat (rid (filter is_append (task_lines 0
          (written (exec flood_engine (flood_sched (2 ^ 32 + 1)) (init [search_line ''q''])))) !
        (2 ^ 32))) \<noteq> 2 ^ 32"
proof -
  from flood_matched [of "2 ^ 32 + 1"] obtain t where
    t: "tasks (exec flood_engine (flood_sched (2 ^ 32 + 1)) (init [search_line ''q''])) = [t]"
       "length (matched t) = 2 ^ 32 + 1" by blast
  then have "0 < length (tasks (exec flood_engine (flood_sched (2 ^ 32 + 1)) (init [search_line ''q''])))"
    "2 ^ 32 < length (matched (tasks (exec flood_engine (flood_sched (2 ^ 32 + 1)) (init [search_line ''q''])) ! 0))"
    by simp_all
  from reach_append_ids [OF this]
  have len: "2 ^ 32 < length (filter is_append (task_lines 0
          (written (exec flood_engine (flood_sched (2 ^ 32 + 1)) (init [search_line ''q''])))))"
    and "rid (filter is_append (task_lines 0
          (written (exec flood_engine (flood_sched (2 ^ 32 + 1)) (init [search_line ''q''])))) !
        (2 ^ 32)) = (of_nat (2 ^ 32) :: 32 word)" by blast+
  moreover have "(of_nat (2 ^ 32) :: 32 word) = 0" by simp
  ultimately have "rid (filter is_append (task_lines 0
          (written (exec flood_engine (flood_sched (2 ^ 32 + 1)) (init [search_line ''q''])))) !
        (2 ^ 32)) = 0" by simp
  with len show ?thesis by simp
qed

text \<open>
  C4, amended. Within one search the \<open>i\<close>-th \<open>Append\<close> carries the 32-bit id of \<open>i\<close>,
  that is \<open>i mod 2\<^sup>3\<^sup>2\<close>. For every search, with or without an \<open>Append\<close>, the labels of
  the \<open>Append\<close>s written so far are exactly \<^verbatim>\<open>matched\<close>; and when the goroutine has stored
  its results and no later one has, the table \<^verbatim>\<open>lastResults\<close> holds exactly the labels of
  the \<open>Append\<close>s it wrote, whether it completed, failed or was cancelled.
\<close>

theorem append_ids_in_emission_order:
  "j < length (tasks (exec E sched (init lines))) \<Longrightarrow>
   (\<forall>i < length (filter is_append (task_lines j (written (exec E sched (init lines))))).
      rid (filter is_append (task_lines j (written (exec E sched (init lines)))) ! i) = of_nat i \<and>
      unat (rid (filter is_append (task_lines j (written (exec E sched (init lines)))) ! i)) =
        i mod 2 ^ 32) \<and>
   map rname (filter is_append (task_lines j (written (exec E sched (init lines))))) =
     matched (tasks (exec E sched (init lines)) ! j) \<and>
   (published (tasks (exec E sched (init lines)) ! j) \<and>
    (\<forall>k. j < k \<and> k < length (tasks (exec E sched (init lines))) \<longrightarrow>
         \<not> published (tasks (exec E sched (init lines)) ! k)) \<longrightarrow>
      lastResults (exec E sched (init lines)) =
        map rname (filter is_append (task_lines j (written (exec E sched (init lines))))))"
proof -
  assume j: "j < length (tasks (exec E sched (init lines)))"
  define s where "s = exec E sched (init lines)"
  define as where "as = filter is_append (task_lines j (written s))"
  from block_ok_appends [OF reach_shape [OF j]]
  have a: "appends_from 0 as (matched (tasks s ! j))" by (simp add: as_def s_def)
  from appends_from_names [OF a] have names: "map rname as = matched (tasks s ! j)" by simp
  have ids: "rid (as ! i) = of_nat i \<and> unat (rid (as ! i)) = i mod 2 ^ 32" if "i < length as" for i
  proof -
    from appends_from_nth [OF a that] have "rid (as ! i) = of_nat i" by simp
    then show ?thesis by (simp add: unat_of_nat)
  qed
  have "lastResults s = map rname as"
    if "published (tasks s ! j)" "\<forall>k. j < k \<and> k < length (tasks s) \<longrightarrow> \<not> published (tasks s ! k)"
    using last_published_latest [of j "tasks s"] that j names reach_table [of E sched lines]
    by (simp add: s_def)
  with ids names show ?thesis unfolding as_def s_def by blast
qed

text \<open>
  C4 amended, at the search of the test suite run to its end, where the second \<open>Append\<close>
  has id 1 and the table holds the two labels, and at the search of
  \<^verbatim>\<open>TestSearchInterruptCancelsContext\<close>, cancelled before its first result, where no
  \<open>Append\<close> is written and the table is empty.
\<close>

theorem append_ids_in_emission_order_witness:
  "rid (filter is_append (task_lines 0 (written (exec email_engine search_done (init email_lines)))) ! 1) = 1 \<and>
   lastResults (exec email_engine search_done (init email_lines)) =
     map rname (filter is_append (task_lines 0 (written (exec email_engine search_done (init email_lines))))) \<and>
   lastResults (exec email_engine search_done (init email_lines)) = [''Email/personal'', ''Email/work''] \<and>
   filter is_append (task_lines 0 (written (exec blocking_engine (searching @ MainT # finishing)
     (init interrupt_lines)))) = [] \<and>
   lastResults (exec blocking_engine (searching @ MainT # finishing) (init interrupt_lines)) =
     map rname (filter is_append (task_lines 0 (written (exec blocking_engine
       (searching @ MainT # finishing) (init interrupt_lines)))))"
proof -
  have h: "0 < length (tasks (exec email_engine search_done (init email_lines)))"
    by code_simp
  have i: "1 < length (filter is_append (task_lines 0 (written (exec email_engine search_done (init email_lines)))))"
    by code_simp
  have p: "published (tasks (exec email_engine search_done (init email_lines)) ! 0)"
    by code_simp
  have l: "length (tasks (exec email_engine search_done (init email_lines))) = 1"
    by code_simp
  have t: "lastResults (exec email_engine search_done (init email_lines)) = [''Email/personal'', ''Email/work'']"
    by code_simp
  from l have n: "\<forall>k. 0 < k \<and> k < length (tasks (exec email_engine search_done (init email_lines))) \<longrightarrow>
         \<not> published (tasks (exec email_engine search_done (init email_lines)) ! k)"
    by simp
  have h': "0 < length (tasks (exec blocking_engine (searching @ MainT # finishing) (init interrupt_lines)))"
    by code_simp
  have p': "published (tasks (exec blocking_engine (searching @ MainT # finishing) (init interrupt_lines)) ! 0)"
    by code_simp
  have l': "length (tasks (exec blocking_engine (searching @ MainT # finishing) (init interrupt_lines))) = 1"
    by code_simp
  have e': "filter is_append (task_lines 0 (written (exec blocking_engine (searching @ MainT # finishing)
     (init interrupt_lines)))) = []"
    by code_simp
  from l' have n': "\<forall>k. 0 < k \<and> k < length (tasks (exec blocking_engine (searching @ MainT # finishing) (init interrupt_lines))) \<longrightarrow>
         \<not> published (tasks (exec blocking_engine (searching @ MainT # finishing) (init interrupt_lines)) ! k)"
    by simp
  note A = append_ids_in_emission_order [OF h]
  note B = append_ids_in_emission_order [OF h']
  have w: "(of_nat 1 :: 32 word) = 1" by simp
  from A [THEN conjunct1, rule_format, OF i] w
  have 1: "rid (filter is_append (task_lines 0 (written (exec email_engine search_done (init email_lines)))) ! 1) = 1"
    by simp
  from A [THEN conjunct2, THEN conjunct2] p n
  have 2: "lastResults (exec email_engine search_done (init email_lines)) =
     map rname (filter is_append (task_lines 0 (written (exec email_engine search_done (init email_lines)))))"
    by blast
  from B [THEN conjunct2, THEN conjunct2] p' n'
  have 3: "lastResults (exec blocking_engine (searching @ MainT # finishing) (init interrupt_lines)) =
     map rname (filter is_append (task_lines 0 (written (exec blocking_engine
       (searching @ MainT # finishing) (init interrupt_lines)))))"
    by blast
  from 1 2 3 t e' show ?thesis by simp
qed

text \<open>
  C1, as stated, fails when the interrupt is read after a search has finished by itself:
  \<^verbatim>\<open>searchCancel\<close> is reset only inside \<^verbatim>\<open>cancelSearch\<close>, so \<^verbatim>\<open>wasSearching\<close> is true
  although every goroutine has ended. On the trace search, interrupt, exit, with the
  search run to its end before the interrupt is taken, the loop handles the interrupt
  and is back reading with the exit as next line, and the output is what it was before:
  no \<^verbatim>\<open>Finished\<close> at all is written for this interrupt.
\<close>

theorem interrupt_after_finished_search:
  "mainpc (exec email_engine search_done (init late_interrupt)) = MRead \<and>
   requests (exec email_engine search_done (init late_interrupt)) =
     [interrupt_literal, exit_literal] \<and>
   command_of email_engine interrupt_literal = CInterrupt \<and>
   length (tasks (exec email_engine search_done (init late_interrupt))) = 1 \<and>
   ended (tasks (exec email_engine search_done (init late_interrupt)) ! 0) \<and>
   requests (exec email_engine [MainT, MainT]
     (exec email_engine search_done (init late_interrupt))) = [exit_literal] \<and>
   mainpc (exec email_engine [MainT, MainT]
     (exec email_engine search_done (init late_interrupt))) = MRead \<and>
   written (exec email_engine [MainT, MainT]
     (exec email_engine search_done (init late_interrupt))) =
     written (exec email_engine search_done (init late_interrupt)) \<and>
   count_list (map snd (written (exec email_engine [MainT, MainT]
     (exec email_engine search_done (init late_interrupt))))) Finished = 1"
  by code_simp

text \<open>
  C1, amended. Let the loop, in a reachable state \<open>s\<close>, read a line that is
  \<^verbatim>\<open>"Interrupt"\<close>. With no search recorded in \<^verbatim>\<open>searchCancel\<close> that step writes one
  \<^verbatim>\<open>Finished\<close> and the command is done; until the next line is taken the loop writes
  nothing more and no goroutine is alive or writes. With goroutine \<open>j\<close> recorded the step
  cancels its context and blocks, writing nothing; until the next line is taken the loop
  writes nothing at all, and either it is still blocked or goroutine \<open>j\<close> has ended with
  exactly one \<^verbatim>\<open>Finished\<close> among its lines; the blocked loop goes on, silently, with its
  next step once the goroutine has ended. If the recorded goroutine had not yet written
  its \<^verbatim>\<open>Finished\<close> when the interrupt was read, none of its lines so far is a
  \<^verbatim>\<open>Finished\<close>, so that one comes after the interrupt; if it had, nothing at all is
  written until the next line is taken.
\<close>

theorem interrupt_at_most_one_finished:
  assumes "s = exec E sched (init lines)"
    and "mainpc s = MRead"
    and "requests s = l # rest"
    and "command_of E l = CInterrupt"
  shows
    "(case searchCancel s of
        None \<Rightarrow>
          written (loop_step E s) = written s @ [(Loop, Finished)] \<and>
          mainpc (loop_step E s) = MRead \<and> requests (loop_step E s) = rest
      | Some j \<Rightarrow>
          written (loop_step E s) = written s \<and>
          mainpc (loop_step E s) = MWait j (KInterrupt True) \<and>
          cancelled (tasks (loop_step E s) ! j)) \<and>
     (\<forall>later. requests (exec E later (loop_step E s)) = rest \<longrightarrow>
        length (tasks (exec E later (loop_step E s))) = length (tasks s) \<and>
        (case searchCancel s of
           None \<Rightarrow>
             loop_lines (written (exec E later (loop_step E s))) =
               loop_lines (written s) @ [Finished] \<and>
             (\<forall>i < length (tasks s).
                ended (tasks (exec E later (loop_step E s)) ! i) \<and>
                task_lines i (written (exec E later (loop_step E s))) = task_lines i (written s))
         | Some j \<Rightarrow>
             loop_lines (written (exec E later (loop_step E s))) = loop_lines (written s) \<and>
             (mainpc (exec E later (loop_step E s)) = MWait j (KInterrupt True) \<or>
              mainpc (exec E later (loop_step E s)) \<noteq> MWait j (KInterrupt True) \<and>
              ended (tasks (exec E later (loop_step E s)) ! j) \<and>
              count_list (task_lines j (written (exec E later (loop_step E s)))) Finished = 1))) \<and>
     (\<forall>later j.
        requests (exec E later (loop_step E s)) = rest \<and>
        mainpc (exec E later (loop_step E s)) = MWait j (KInterrupt True) \<and>
        ended (tasks (exec E later (loop_step E s)) ! j) \<longrightarrow>
          mainpc (loop_step E (exec E later (loop_step E s))) = MRead \<and>
          requests (loop_step E (exec E later (loop_step E s))) = rest \<and>
          written (loop_step E (exec E later (loop_step E s))) =
            written (exec E later (loop_step E s))) \<and>
     (\<forall>j. searchCancel s = Some j \<and> \<not> wrote_finished (pc (tasks s ! j)) \<longrightarrow>
        count_list (task_lines j (written s)) Finished = 0) \<and>
     (\<forall>later j.
        searchCancel s = Some j \<and> wrote_finished (pc (tasks s ! j)) \<and>
        requests (exec E later (loop_step E s)) = rest \<longrightarrow>
          written (exec E later (loop_step E s)) = written s)"
proof -
  have inv: "inv s" unfolding assms(1) by (rule inv_reachable)
  note old = interrupt_handling [OF assms]
  have four: "count_list (task_lines j (written s)) Finished = 0"
    if "searchCancel s = Some j \<and> \<not> wrote_finished (pc (tasks s ! j))" for j
  proof -
    from inv that have "j < length (tasks s)" by (auto simp: inv_def inv_alive_def)
    from unfinished_no_finished [OF inv_shapeD [OF inv this]] that show ?thesis by simp
  qed
  have five: "written (exec E later (loop_step E s)) = written s"
    if h: "searchCancel s = Some j \<and> wrote_finished (pc (tasks s ! j)) \<and>
        requests (exec E later (loop_step E s)) = rest" for later j
  proof -
    from h have sc: "searchCancel s = Some j" by simp
    from inv sc have last: "Suc j = length (tasks s)"
      and others: "\<forall>i. Suc i < length (tasks s) \<longrightarrow> ended (tasks s ! i)"
      by (auto simp: inv_def inv_alive_def)
    have sil: "wrote_finished (pc (tasks s ! i))" if "i < length (tasks s)" for i
    proof (cases "i = j")
      case True
      with h show ?thesis by simp
    next
      case False
      with that last have "Suc i < length (tasks s)" by arith
      with others have "ended (tasks s ! i)" by blast
      then show ?thesis by (simp add: ended_iff)
    qed
    have c: "cancels_first (command_of E l)" by (simp add: assms(4))
    from loop_step_cancels [OF assms(2,3) sc c]
    have w1: "written (loop_step E s) = written s"
      and l1: "length (tasks (loop_step E s)) = length (tasks s)" by simp_all
    have s1: "silent (loop_step E s)"
      using sil l1 by (simp add: silent_def loop_step_pc)
    have k: "cont_of (command_of E l) (searchCancel s \<noteq> None) = Some (KInterrupt True)"
      "\<not> spawns (KInterrupt True)"
      using sc by (simp_all add: assms(4))
    have hd: "handling s (KInterrupt True) rest (loop_step E s)"
      using inv assms(2,3) k by (rule handling_start)
    from silent_interrupt_exec [OF inv_loop_step [OF inv] hd, of "written s" E later] w1 s1 h
    show ?thesis by simp
  qed
  from old four five show ?thesis by blast
qed

text \<open>
  C1 amended, on the traces of \<^verbatim>\<open>TestInterruptWithoutActiveSearch\<close> (one \<^verbatim>\<open>Finished\<close> by
  the loop), of \<^verbatim>\<open>TestSearchInterruptCancelsContext\<close> (none by the loop, one by the
  goroutine, after the interrupt) and of the interrupt read after the search has
  finished (nothing written).
\<close>

theorem interrupt_at_most_one_finished_witness:
  "written (loop_step blocking_engine (exec blocking_engine [] (init idle_lines))) =
     [(Loop, Finished)] \<and>
   mainpc (loop_step blocking_engine (exec blocking_engine searching (init interrupt_lines))) =
     MWait 0 (KInterrupt True) \<and>
   loop_lines (written (exec blocking_engine finishing
     (loop_step blocking_engine (exec blocking_engine searching (init interrupt_lines))))) = [] \<and>
   count_list (task_lines 0 (written (exec blocking_engine finishing
     (loop_step blocking_engine (exec blocking_engine searching (init interrupt_lines))))))
     Finished = 1 \<and>
   count_list (task_lines 0 (written (exec blocking_engine searching (init interrupt_lines))))
     Finished = 0 \<and>
   written (exec email_engine [MainT]
     (loop_step email_engine (exec email_engine search_done (init late_interrupt)))) =
     written (exec email_engine search_done (init late_interrupt))"
proof -
  have a: "mainpc (exec blocking_engine [] (init idle_lines)) = MRead"
    "requests (exec blocking_engine [] (init idle_lines)) = interrupt_literal # [exit_literal]"
    "command_of blocking_engine interrupt_literal = CInterrupt"
    by code_simp+
  have a': "searchCancel (exec blocking_engine [] (init idle_lines)) = None"
    "written (exec blocking_engine [] (init idle_lines)) = []"
    by code_simp+
  have b: "mainpc (exec blocking_engine searching (init interrupt_lines)) = MRead"
    "requests (exec blocking_engine searching (init interrupt_lines)) =
       interrupt_literal # [exit_literal]"
    by code_simp+
  have b': "searchCancel (exec blocking_engine searching (init interrupt_lines)) = Some 0"
    "loop_lines (written (exec blocking_engine searching (init interrupt_lines))) = []"
    by code_simp+
  have c: "requests (exec blocking_engine finishing
       (loop_step blocking_engine (exec blocking_engine searching (init interrupt_lines)))) =
       [exit_literal]"
    "mainpc (exec blocking_engine finishing
       (loop_step blocking_engine (exec blocking_engine searching (init interrupt_lines)))) =
       MRead"
    by code_simp+
  note A = interrupt_at_most_one_finished [OF refl a]
  note B = interrupt_at_most_one_finished [OF refl b a(3)]
  from A [THEN conjunct1] a' have 1:
    "written (loop_step blocking_engine (exec blocking_engine [] (init idle_lines))) =
       [(Loop, Finished)]" by simp
  from B [THEN conjunct1] b' have 2:
    "mainpc (loop_step blocking_engine (exec blocking_engine searching (init interrupt_lines))) =
       MWait 0 (KInterrupt True)" by simp
  from B [THEN conjunct2, THEN conjunct1, rule_format, of finishing] b' c have 3:
    "loop_lines (written (exec blocking_engine finishing
       (loop_step blocking_engine (exec blocking_engine searching (init interrupt_lines))))) = [] \<and>
     count_list (task_lines 0 (written (exec blocking_engine finishing
       (loop_step blocking_engine (exec blocking_engine searching (init interrupt_lines))))))
       Finished = 1" by simp
  have d: "\<not> wrote_finished (pc (tasks (exec blocking_engine searching (init interrupt_lines)) ! 0))"
    by code_simp
  from B [THEN conjunct2, THEN conjunct2, THEN conjunct2, THEN conjunct1, rule_format, of 0] b' d
  have 4: "count_list (task_lines 0 (written (exec blocking_engine searching (init interrupt_lines))))
     Finished = 0" by simp
  have e: "mainpc (exec email_engine search_done (init late_interrupt)) = MRead"
    "requests (exec email_engine search_done (init late_interrupt)) =
       interrupt_literal # [exit_literal]"
    "command_of email_engine interrupt_literal = CInterrupt"
    by code_simp+
  have e': "searchCancel (exec email_engine search_done (init late_interrupt)) = Some 0"
    "wrote_finished (pc (tasks (exec email_engine search_done (init late_interrupt)) ! 0))"
    "requests (exec email_engine [MainT]
       (loop_step email_engine (exec email_engine search_done (init late_interrupt)))) =
       [exit_literal]"
    by code_simp+
  note C = interrupt_at_most_one_finished [OF refl e]
  from C [THEN conjunct2, THEN conjunct2, THEN conjunct2, THEN conjunct2, rule_format,
      of 0 "[MainT]"] e'
  have 5: "written (exec email_engine [MainT]
     (loop_step email_engine (exec email_engine search_done (init late_interrupt)))) =
     written (exec email_engine search_done (init late_interrupt))" by simp
  from 1 2 3 4 5 show ?thesis by simp
qed

text \<open>
  C5. Let the loop, in a reachable state \<open>s\<close>, read a line that is an activation of index
  \<open>i\<close>. Until the next line is taken, either the loop is still blocked in
  \<^verbatim>\<open>cancelSearch\<close>, and then it has written nothing and has not called the handler, or
  it has gone on, and then it has written exactly one line, \<^verbatim>\<open>Close\<close>, and has called the
  handler exactly once with \<^verbatim>\<open>lastResults[i]\<close> when \<open>i\<close> is below the length of the table,
  and not at all otherwise; this holds for every handler, whatever it returns. With no
  search recorded the step that reads the line does all of it; a blocked loop goes on with
  its next step once the goroutine it waits for has ended.
\<close>

theorem activate_one_close:
  assumes "s = exec E sched (init lines)"
    and "mainpc s = MRead"
    and "requests s = l # rest"
    and "command_of E l = CActivate i"
  shows
    "(\<forall>later. requests (exec E later (loop_step E s)) = rest \<longrightarrow>
        ((\<exists>j. mainpc (exec E later (loop_step E s)) = MWait j (KActivate i) \<and>
              searchCancel s = Some j) \<and>
         loop_lines (written (exec E later (loop_step E s))) = loop_lines (written s) \<and>
         activated (exec E later (loop_step E s)) = activated s) \<or>
        ((mainpc (exec E later (loop_step E s)) = MRead \<or>
          mainpc (exec E later (loop_step E s)) = MDone) \<and>
         (\<forall>j < length (tasks (exec E later (loop_step E s))).
            ended (tasks (exec E later (loop_step E s)) ! j)) \<and>
         loop_lines (written (exec E later (loop_step E s))) = loop_lines (written s) @ [Close] \<and>
         activated (exec E later (loop_step E s)) =
           activated s @
             (if unat i < length (lastResults (exec E later (loop_step E s)))
              then [lastResults (exec E later (loop_step E s)) ! unat i] else []))) \<and>
     (searchCancel s = None \<longrightarrow>
        mainpc (loop_step E s) = MRead \<and> requests (loop_step E s) = rest) \<and>
     (\<forall>later j.
        requests (exec E later (loop_step E s)) = rest \<and>
        mainpc (exec E later (loop_step E s)) = MWait j (KActivate i) \<and>
        ended (tasks (exec E later (loop_step E s)) ! j) \<longrightarrow>
          mainpc (loop_step E (exec E later (loop_step E s))) = MRead \<and>
          requests (loop_step E (exec E later (loop_step E s))) = rest)"
proof -
  have inv: "inv s" unfolding assms(1) by (rule inv_reachable)
  have k: "cont_of (command_of E l) (searchCancel s \<noteq> None) = Some (KActivate i)"
    "\<not> spawns (KActivate i)"
    by (simp_all add: assms(4))
  have first: "((\<exists>j. mainpc (exec E later (loop_step E s)) = MWait j (KActivate i) \<and>
              searchCancel s = Some j) \<and>
         loop_lines (written (exec E later (loop_step E s))) = loop_lines (written s) \<and>
         activated (exec E later (loop_step E s)) = activated s) \<or>
        ((mainpc (exec E later (loop_step E s)) = MRead \<or>
          mainpc (exec E later (loop_step E s)) = MDone) \<and>
         (\<forall>j < length (tasks (exec E later (loop_step E s))).
            ended (tasks (exec E later (loop_step E s)) ! j)) \<and>
         loop_lines (written (exec E later (loop_step E s))) = loop_lines (written s) @ [Close] \<and>
         activated (exec E later (loop_step E s)) =
           activated s @
             (if unat i < length (lastResults (exec E later (loop_step E s)))
              then [lastResults (exec E later (loop_step E s)) ! unat i] else []))"
    if "requests (exec E later (loop_step E s)) = rest" for later
    using handling_run [OF inv assms(2,3) k, of later] that
    by (auto simp: handling_def quiet_def)
  have second: "mainpc (loop_step E s) = MRead \<and> requests (loop_step E s) = rest"
    if "searchCancel s = None"
    using that assms(2,3,4)
    by (simp add: loop_step_read dispatch_command cancelSearch_none do_activate_def Let_def
        split: option.splits)
  have third: "mainpc (loop_step E (exec E later (loop_step E s))) = MRead \<and>
          requests (loop_step E (exec E later (loop_step E s))) = rest"
    if "requests (exec E later (loop_step E s)) = rest \<and>
        mainpc (exec E later (loop_step E s)) = MWait j (KActivate i) \<and>
        ended (tasks (exec E later (loop_step E s)) ! j)" for later j
  proof -
    have "inv (exec E later (loop_step E s))" by (intro inv_exec inv_loop_step inv)
    from join_when_ended [OF this, of j "KActivate i" E] that show ?thesis
      by (simp add: do_activate_def Let_def split: option.splits)
  qed
  from first second third show ?thesis by blast
qed

text \<open>
  C5, with a handler that always fails: index 1 of two results reaches the handler with
  the second label, index 99 does not reach it, and \<^verbatim>\<open>Close\<close> is the only line either way.
\<close>

theorem activate_one_close_witness:
  "loop_lines (written (exec busy_engine [MainT]
     (loop_step busy_engine (exec busy_engine search_done (init email_lines))))) = [Close] \<and>
   activated (exec busy_engine [MainT]
     (loop_step busy_engine (exec busy_engine search_done (init email_lines)))) = [''Email/work''] \<and>
   loop_lines (written (exec busy_engine [MainT]
     (loop_step busy_engine (exec busy_engine search_done (init out_of_range_lines))))) = [Close] \<and>
   activated (exec busy_engine [MainT]
     (loop_step busy_engine (exec busy_engine search_done (init out_of_range_lines)))) = []"
proof -
  have a: "mainpc (exec busy_engine search_done (init email_lines)) = MRead"
    "requests (exec busy_engine search_done (init email_lines)) = activate_line ''1'' # [exit_literal]"
    "command_of busy_engine (activate_line ''1'') = CActivate 1"
    by code_simp+
  have a': "requests (exec busy_engine [MainT]
       (loop_step busy_engine (exec busy_engine search_done (init email_lines)))) = [exit_literal]"
    "mainpc (exec busy_engine [MainT]
       (loop_step busy_engine (exec busy_engine search_done (init email_lines)))) = MRead"
    "loop_lines (written (exec busy_engine search_done (init email_lines))) = []"
    "activated (exec busy_engine search_done (init email_lines)) = []"
    "lastResults (exec busy_engine [MainT]
       (loop_step busy_engine (exec busy_engine search_done (init email_lines)))) =
       [''Email/personal'', ''Email/work'']"
    by code_simp+
  have b: "mainpc (exec busy_engine search_done (init out_of_range_lines)) = MRead"
    "requests (exec busy_engine search_done (init out_of_range_lines)) =
       activate_line ''99'' # [exit_literal]"
    "command_of busy_engine (activate_line ''99'') = CActivate 99"
    by code_simp+
  have b': "requests (exec busy_engine [MainT]
       (loop_step busy_engine (exec busy_engine search_done (init out_of_range_lines)))) =
       [exit_literal]"
    "mainpc (exec busy_engine [MainT]
       (loop_step busy_engine (exec busy_engine search_done (init out_of_range_lines)))) = MRead"
    "loop_lines (written (exec busy_engine search_done (init out_of_range_lines))) = []"
    "activated (exec busy_engine search_done (init out_of_range_lines)) = []"
    "lastResults (exec busy_engine [MainT]
       (loop_step busy_engine (exec busy_engine search_done (init out_of_range_lines)))) =
       [''Email/personal'', ''Email/work'']"
    by code_simp+
  note A = activate_one_close [OF refl a, THEN conjunct1, rule_format, of "[MainT]"]
  note B = activate_one_close [OF refl b, THEN conjunct1, rule_format, of "[MainT]"]
  from A a' have 1: "loop_lines (written (exec busy_engine [MainT]
       (loop_step busy_engine (exec busy_engine search_done (init email_lines))))) = [Close] \<and>
     activated (exec busy_engine [MainT]
       (loop_step busy_engine (exec busy_engine search_done (init email_lines)))) = [''Email/work'']"
    by simp
  from B b' have 2: "loop_lines (written (exec busy_engine [MainT]
       (loop_step busy_engine (exec busy_engine search_done (init out_of_range_lines))))) = [Close] \<and>
     activated (exec busy_engine [MainT]
       (loop_step busy_engine (exec busy_engine search_done (init out_of_range_lines)))) = []"
    by simp
  from 1 2 show ?thesis by simp
qed

text \<open>
  C6. Let the callback of search goroutine \<open>j\<close>, in a reachable state \<open>s\<close>, be about to
  return an error. The step that returns logs the error and writes nothing. Whatever the
  other goroutines do meanwhile, three further steps of goroutine \<open>j\<close> end it, and its
  lines are then those it had written before the failure followed by one \<^verbatim>\<open>Finished\<close>.
  After its first further step, and as long as no later search exists, \<^verbatim>\<open>lastResults\<close>
  is \<^verbatim>\<open>matched\<close> as it stood at the failure, the labels of the \<open>Append\<close>s written before
  it. An activation read then with an index below that length hands that label to the
  handler.
\<close>

theorem provider_failure_finishes:
  assumes "s = exec E sched (init lines)"
    and "j < length (tasks s)"
    and "pc (tasks s ! j) = TCall p"
    and "next_step (onSearch E) p (cancelled (tasks s ! j)) = Return (Some err)"
  shows
    "written (task_step E j s) = written s \<and>
     logs (task_step E j s) = logs s @ [LSearchFailed err] \<and>
     (\<forall>later. 3 \<le> count_list later (TaskT j) \<longrightarrow>
        ended (tasks (exec E later (task_step E j s)) ! j) \<and>
        task_lines j (written (exec E later (task_step E j s))) =
          task_lines j (written s) @ [Finished]) \<and>
     (\<forall>later. 1 \<le> count_list later (TaskT j) \<and>
        length (tasks (exec E later (task_step E j s))) = Suc j \<longrightarrow>
        lastResults (exec E later (task_step E j s)) = matched (tasks s ! j) \<and>
        lastResults (exec E later (task_step E j s)) =
          map rname (filter is_append (task_lines j (written s)))) \<and>
     (\<forall>later l rest i.
        3 \<le> count_list later (TaskT j) \<and>
        length (tasks (exec E later (task_step E j s))) = Suc j \<and>
        mainpc (exec E later (task_step E j s)) = MRead \<and>
        requests (exec E later (task_step E j s)) = l # rest \<and>
        command_of E l = CActivate i \<and> unat i < length (matched (tasks s ! j)) \<longrightarrow>
        activated
          (if searchCancel (exec E later (task_step E j s)) = None
           then loop_step E (exec E later (task_step E j s))
           else loop_step E (loop_step E (exec E later (task_step E j s)))) =
          activated (exec E later (task_step E j s)) @ [matched (tasks s ! j) ! unat i])"
proof -
  have inv: "inv s" unfolding assms(1) by (rule inv_reachable)
  define s1 where "s1 = task_step E j s"
  from return_step [OF assms(2,3,4)]
  have r: "pc (tasks s1 ! j) = TPublish" "matched (tasks s1 ! j) = matched (tasks s ! j)"
    "written s1 = written s" "logs s1 = logs s @ [LSearchFailed err]"
    by (simp_all add: s1_def)
  have j1: "j < length (tasks s1)" "returned (pc (tasks s1 ! j))"
    using assms(2) r(1) by (simp_all add: s1_def)
  have inv1: "inv s1" unfolding s1_def using inv by (rule inv_task_step)
  have names: "matched (tasks s ! j) = map rname (filter is_append (task_lines j (written s)))"
    using appends_from_names [OF block_ok_appends [OF inv_shapeD [OF inv assms(2)]]] .
  have after: "j < length (tasks (exec E later s1)) \<and>
      returned (pc (tasks (exec E later s1) ! j)) \<and>
      matched (tasks (exec E later s1) ! j) = matched (tasks s ! j) \<and>
      steps_left (pc (tasks (exec E later s1) ! j)) \<le> 3 - count_list later (TaskT j) \<and>
      task_lines j (written (exec E later s1)) @ pending (pc (tasks (exec E later s1) ! j)) =
        task_lines j (written s) @ [Finished]" for later
    using returned_exec [OF j1, of E later] r by simp
  have fin: "ended (tasks (exec E later s1) ! j) \<and>
        task_lines j (written (exec E later s1)) = task_lines j (written s) @ [Finished]"
    if "3 \<le> count_list later (TaskT j)" for later
  proof -
    from after [of later] have "steps_left (pc (tasks (exec E later s1) ! j)) \<le> 3 - count_list later (TaskT j)"
      by blast
    with that have "steps_left (pc (tasks (exec E later s1) ! j)) = 0" by arith
    then have "pc (tasks (exec E later s1) ! j) = TEnded" by (simp add: steps_left_zero)
    with after [of later] show ?thesis by (simp add: ended_iff)
  qed
  have tbl: "lastResults (exec E later s1) = matched (tasks s ! j)"
    if "1 \<le> count_list later (TaskT j) \<and> length (tasks (exec E later s1)) = Suc j" for later
  proof -
    from after [of later] have "steps_left (pc (tasks (exec E later s1) ! j)) \<le> 3 - count_list later (TaskT j)"
      by blast
    with that have "steps_left (pc (tasks (exec E later s1) ! j)) \<le> 2" by arith
    with after [of later] returned_published have "published (tasks (exec E later s1) ! j)"
      by (auto simp: published_iff)
    moreover have "inv (exec E later s1)" using inv1 by (rule inv_exec)
    moreover from that have "\<forall>k. j < k \<and> k < length (tasks (exec E later s1)) \<longrightarrow>
        \<not> published (tasks (exec E later s1) ! k)" by auto
    moreover from that have "j < length (tasks (exec E later s1))" by simp
    ultimately have "lastResults (exec E later s1) = matched (tasks (exec E later s1) ! j)"
      using last_published_latest [of j "tasks (exec E later s1)"]
      by (simp add: inv_tableD)
    with after [of later] show ?thesis by simp
  qed
  have act: "activated
          (if searchCancel (exec E later s1) = None
           then loop_step E (exec E later s1)
           else loop_step E (loop_step E (exec E later s1))) =
          activated (exec E later s1) @ [matched (tasks s ! j) ! unat i]"
    if h: "3 \<le> count_list later (TaskT j) \<and>
        length (tasks (exec E later s1)) = Suc j \<and>
        mainpc (exec E later s1) = MRead \<and>
        requests (exec E later s1) = l # rest \<and>
        command_of E l = CActivate i \<and> unat i < length (matched (tasks s ! j))" for later l rest i
  proof -
    have inv': "inv (exec E later s1)" using inv1 by (rule inv_exec)
    from h tbl [of later] have t: "lastResults (exec E later s1) = matched (tasks s ! j)" by simp
    have e: "\<forall>j'. searchCancel (exec E later s1) = Some j' \<longrightarrow> ended (tasks (exec E later s1) ! j')"
    proof (intro allI impI)
      fix j' assume "searchCancel (exec E later s1) = Some j'"
      with inv' have "Suc j' = length (tasks (exec E later s1))"
        by (auto simp: inv_def inv_alive_def)
      with h have "j' = j" by simp
      with fin [of later] h show "ended (tasks (exec E later s1) ! j')" by simp
    qed
    from activate_settles [OF inv' _ _ _ _ e, of l rest E i] h t show ?thesis by simp
  qed
  have tbl2: "lastResults (exec E later s1) = map rname (filter is_append (task_lines j (written s)))"
    if "1 \<le> count_list later (TaskT j) \<and> length (tasks (exec E later s1)) = Suc j" for later
    using tbl [OF that] names by simp
  from r(3,4) fin tbl tbl2 act show ?thesis
    unfolding s1_def by blast
qed

text \<open>
  C6, for a callback that appends one result and then fails: the goroutine ends with
  \<^verbatim>\<open>Clear\<close>, one \<open>Append\<close>, \<^verbatim>\<open>Finished\<close>; the table holds the one label, and activating
  index 0 calls the handler with it.
\<close>

theorem provider_failure_finishes_witness:
  "ended (tasks (exec failing_engine wind_up
     (task_step failing_engine 0 (exec failing_engine about_to_fail (init failing_lines)))) ! 0) \<and>
   task_lines 0 (written (exec failing_engine wind_up
     (task_step failing_engine 0 (exec failing_engine about_to_fail (init failing_lines))))) =
     [Clear, Append 0 ''entry'' ''desc'' None, Finished] \<and>
   lastResults (exec failing_engine wind_up
     (task_step failing_engine 0 (exec failing_engine about_to_fail (init failing_lines)))) =
     [''entry''] \<and>
   activated (loop_step failing_engine (loop_step failing_engine (exec failing_engine wind_up
     (task_step failing_engine 0 (exec failing_engine about_to_fail (init failing_lines)))))) =
     [''entry'']"
proof -
  have a: "0 < length (tasks (exec failing_engine about_to_fail (init failing_lines)))"
    "pc (tasks (exec failing_engine about_to_fail (init failing_lines)) ! 0) = TCall True"
    "next_step (onSearch failing_engine) True
       (cancelled (tasks (exec failing_engine about_to_fail (init failing_lines)) ! 0)) =
       Return (Some ''backend failed'')"
    by code_simp+
  have b: "3 \<le> count_list wind_up (TaskT 0)"
    "1 \<le> count_list wind_up (TaskT 0)"
    by code_simp+
  have c: "length (tasks (exec failing_engine wind_up
        (task_step failing_engine 0 (exec failing_engine about_to_fail (init failing_lines))))) = Suc 0"
    "mainpc (exec failing_engine wind_up
        (task_step failing_engine 0 (exec failing_engine about_to_fail (init failing_lines)))) = MRead"
    "requests (exec failing_engine wind_up
        (task_step failing_engine 0 (exec failing_engine about_to_fail (init failing_lines)))) =
        activate_line ''0'' # [exit_literal]"
    "command_of failing_engine (activate_line ''0'') = CActivate 0"
    "unat (0 :: 32 word) < length (matched (tasks (exec failing_engine about_to_fail (init failing_lines)) ! 0))"
    by code_simp+
  have d: "task_lines 0 (written (exec failing_engine about_to_fail (init failing_lines))) =
       [Clear, Append 0 ''entry'' ''desc'' None]"
    "matched (tasks (exec failing_engine about_to_fail (init failing_lines)) ! 0) = [''entry'']"
    "searchCancel (exec failing_engine wind_up
        (task_step failing_engine 0 (exec failing_engine about_to_fail (init failing_lines)))) = Some 0"
    "activated (exec failing_engine wind_up
        (task_step failing_engine 0 (exec failing_engine about_to_fail (init failing_lines)))) = []"
    by code_simp+
  note T = provider_failure_finishes [OF refl a]
  note T3 = T [THEN conjunct2, THEN conjunct2, THEN conjunct1, rule_format, of wind_up]
  note T4 = T [THEN conjunct2, THEN conjunct2, THEN conjunct2, THEN conjunct1, rule_format, of wind_up]
  note T5 = T [THEN conjunct2, THEN conjunct2, THEN conjunct2, THEN conjunct2, rule_format,
      of wind_up "activate_line ''0''" "[exit_literal]" 0]
  from T3 b d have 1: "ended (tasks (exec failing_engine wind_up
     (task_step failing_engine 0 (exec failing_engine about_to_fail (init failing_lines)))) ! 0) \<and>
     task_lines 0 (written (exec failing_engine wind_up
     (task_step failing_engine 0 (exec failing_engine about_to_fail (init failing_lines))))) =
     [Clear, Append 0 ''entry'' ''desc'' None, Finished]" by simp
  from T4 b c d have 2: "lastResults (exec failing_engine wind_up
     (task_step failing_engine 0 (exec failing_engine about_to_fail (init failing_lines)))) =
     [''entry'']" by simp
  from T5 b c d have 3: "activated (loop_step failing_engine (loop_step failing_engine (exec failing_engine wind_up
     (task_step failing_engine 0 (exec failing_engine about_to_fail (init failing_lines)))))) =
     [''entry'']" by simp
  from 1 2 3 show ?thesis by simp
qed

text \<open>
  C8. In every reachable state of the launcher run with the gopass callback, for every
  search goroutine: \<^verbatim>\<open>matched\<close> holds at most the exact match, one label at most, and
  \<open>maxResults = 19\<close> labels of the scan; so at most 20 \<open>Append\<close>s are written, and
  \<^verbatim>\<open>lastResults\<close> never holds more than 20 labels. The search loop of the older inline
  engine writes and stores at most 19, whenever it is cancelled.
\<close>

theorem gopass_result_cap:
  assumes "s = exec (gopass_engine um ToLower out range_order h) sched (init lines)"
  shows
    "(\<forall>j < length (tasks s).
        length (matched (tasks s ! j)) \<le>
          length (exact_of ToLower (loadEntries ToLower out) (tasks s ! j)) + maxResults \<and>
        length (exact_of ToLower (loadEntries ToLower out) (tasks s ! j)) \<le> 1 \<and>
        length (filter is_append (task_lines j (written s))) \<le> 20) \<and>
     length (lastResults s) \<le> 20 \<and>
     length (fst (inline_search ctx_err lowerQuery 0 es [] [])) \<le> 19 \<and>
     length (snd (inline_search ctx_err lowerQuery 0 es [] [])) \<le> 19"
proof -
  define E where "E = gopass_engine um ToLower out range_order h"
  have E: "onSearch E = gopass_OnSearch ToLower (loadEntries ToLower out) range_order"
    by (simp add: E_def gopass_engine_def)
  have s: "s = exec E sched (init lines)" by (simp add: assms E_def)
  have m: "length (matched (tasks s ! j)) \<le>
      length (exact_of ToLower (loadEntries ToLower out) (tasks s ! j)) + maxResults"
    if "j < length (tasks s)" for j
    using gp_count_bound [OF gp_count_reachable [OF E, of j sched lines]] that by (simp add: s)
  have m20: "length (matched (tasks s ! j)) \<le> 20" if "j < length (tasks s)" for j
    using m [OF that] exact_of_length [of ToLower "loadEntries ToLower out" "tasks s ! j"]
    by (simp add: maxResults_def)
  have a: "length (filter is_append (task_lines j (written s))) \<le> 20" if "j < length (tasks s)" for j
  proof -
    from that have "block_ok (tasks s ! j) (task_lines j (written s))"
      unfolding s by (rule reach_shape)
    from appends_from_length [OF block_ok_appends [OF this]] m20 [OF that] show ?thesis by simp
  qed
  have t: "length (lastResults s) \<le> 20"
  proof -
    have "lastResults s = last_published (tasks s)" unfolding s by (rule reach_table)
    with last_published_some [of "tasks s"] m20 show ?thesis
      by (auto simp: in_set_conv_nth)
  qed
  from inline_search_bound [of "[]" "[]" ctx_err lowerQuery 0 es]
  have i: "length (fst (inline_search ctx_err lowerQuery 0 es [] [])) \<le> 19 \<and>
     length (snd (inline_search ctx_err lowerQuery 0 es [] [])) \<le> 19"
    by (simp add: maxResults_def)
  from m a t i exact_of_length show ?thesis by blast
qed

text \<open>
  C8, at a search for \<^verbatim>\<open>q\<close> in a store of four entries: the exact match and one scanned
  label.
\<close>

theorem gopass_result_cap_witness:
  "0 < length (tasks (exec store_engine store_sched (init store_search))) \<and>
   length (matched (tasks (exec store_engine store_sched (init store_search)) ! 0)) = 2 \<and>
   length (exact_of ascii_lower (loadEntries ascii_lower (Some store_lines))
     (tasks (exec store_engine store_sched (init store_search)) ! 0)) = 1 \<and>
   length (filter is_append (task_lines 0 (written (exec store_engine store_sched (init store_search)))))
     \<le> 20 \<and>
   length (lastResults (exec store_engine store_sched (init store_search))) \<le> 20"
proof -
  have h: "0 < length (tasks (exec store_engine store_sched (init store_search)))"
    by code_simp
  have m: "length (matched (tasks (exec store_engine store_sched (init store_search)) ! 0)) = 2"
    by code_simp
  have e: "length (exact_of ascii_lower (loadEntries ascii_lower (Some store_lines))
     (tasks (exec store_engine store_sched (init store_search)) ! 0)) = 1"
    by code_simp
  have s: "exec store_engine store_sched (init store_search) =
      exec (gopass_engine test_Unmarshal ascii_lower (Some store_lines) store_order handler_ok)
        store_sched (init store_search)"
    by (simp add: store_engine_def)
  note T = gopass_result_cap [OF s]
  from T [THEN conjunct1, rule_format, OF h]
  have 1: "length (filter is_append (task_lines 0 (written (exec store_engine store_sched (init store_search)))))
     \<le> 20" by simp
  from T [THEN conjunct2, THEN conjunct1]
  have 2: "length (lastResults (exec store_engine store_sched (init store_search))) \<le> 20" .
  from h m e 1 2 show ?thesis by simp
qed

text \<open>
  C9. In every reachable state of the launcher run with the gopass callback over the map
  built by \<^verbatim>\<open>loadEntries\<close>, whatever order each \<^verbatim>\<open>range\<close> takes: the labels a search has
  appended are distinct and are the names of its \<open>Append\<close>s; every one is an entry of the
  map whose key equals the query with the prefix \<^verbatim>\<open>gp \<close> stripped and lower-cased, or
  contains it, or the query is empty; and if the map has that query as a key, then once
  the callback has done its lookup the entry under it is the first label, appears nowhere
  else, and its \<open>Append\<close> has id 0.
\<close>

theorem gopass_exact_match_first:
  assumes "s = exec (gopass_engine um ToLower out range_order h) sched (init lines)"
    and "\<forall>n. visits (loadEntries ToLower out) (range_order n)"
    and "j < length (tasks s)"
  shows
    "distinct (matched (tasks s ! j)) \<and>
     map rname (filter is_append (task_lines j (written s))) = matched (tasks s ! j) \<and>
     (\<forall>v \<in> set (matched (tasks s ! j)).
        (ToLower v, v) \<in> set (loadEntries ToLower out) \<and>
        (ToLower v = ToLower (TrimPrefix (query (tasks s ! j)) ''gp '') \<or>
         ToLower (TrimPrefix (query (tasks s ! j)) ''gp '') = [] \<or>
         Contains (ToLower v) (ToLower (TrimPrefix (query (tasks s ! j)) ''gp '')))) \<and>
     (\<forall>e. map_of (loadEntries ToLower out) (ToLower (TrimPrefix (query (tasks s ! j)) ''gp '')) = Some e \<longrightarrow>
        (looked_up (pc (tasks s ! j)) \<longrightarrow> matched (tasks s ! j) \<noteq> []) \<and>
        (matched (tasks s ! j) \<noteq> [] \<longrightarrow>
           hd (matched (tasks s ! j)) = e \<and> e \<notin> set (tl (matched (tasks s ! j))) \<and>
           rid (hd (filter is_append (task_lines j (written s)))) = 0 \<and>
           rname (hd (filter is_append (task_lines j (written s)))) = e))"
proof -
  define E where "E = gopass_engine um ToLower out range_order h"
  define A where "A = loadEntries ToLower out"
  have E: "onSearch E = gopass_OnSearch ToLower A range_order"
    by (simp add: E_def A_def gopass_engine_def)
  have s: "s = exec E sched (init lines)" by (simp add: assms(1) E_def)
  have key: "\<forall>k v. (k, v) \<in> set A \<longrightarrow> ToLower v = k"
    using loadEntries_keyed [of ToLower out] by (simp add: A_def)
  have ok: "gp_ok ToLower A (tasks s ! j)"
    unfolding s using E assms(2) [folded A_def] key assms(3) [unfolded s]
    by (rule gp_ok_reachable)
  note f = gp_ok_facts [OF ok key, unfolded lowerQuery_of_def]
  have names: "map rname (filter is_append (task_lines j (written s))) = matched (tasks s ! j)"
    using appends_from_names [OF block_ok_appends [OF reach_shape [OF assms(3) [unfolded s]]]]
    by (simp add: s)
  have first: "rid (hd (filter is_append (task_lines j (written s)))) = 0 \<and>
      rname (hd (filter is_append (task_lines j (written s)))) = hd (matched (tasks s ! j))"
    if "matched (tasks s ! j) \<noteq> []"
  proof -
    from that have 0: "0 < length (matched (tasks s ! j))" by simp
    from reach_append_ids [OF assms(3) [unfolded s] 0 [unfolded s]]
    have "0 < length (filter is_append (task_lines j (written s)))"
      "rid (filter is_append (task_lines j (written s)) ! 0) = 0"
      "rname (filter is_append (task_lines j (written s)) ! 0) = matched (tasks s ! j) ! 0"
      by (simp_all add: s)
    with that show ?thesis by (simp add: hd_conv_nth)
  qed
  from f names first show ?thesis unfolding A_def by auto
qed

text \<open>
  C9, at a search for \<^verbatim>\<open>q\<close> in a store holding \<^verbatim>\<open>Q\<close> and \<^verbatim>\<open>q/sub\<close>: \<^verbatim>\<open>Q\<close> comes first
  with id 0, and the scan adds \<^verbatim>\<open>q/sub\<close> only.
\<close>

theorem gopass_exact_match_first_witness:
  "0 < length (tasks (exec store_engine store_sched (init store_search))) \<and>
   map_of (loadEntries ascii_lower (Some store_lines))
     (ascii_lower (TrimPrefix (query (tasks (exec store_engine store_sched (init store_search)) ! 0))
        ''gp '')) = Some ''Q'' \<and>
   matched (tasks (exec store_engine store_sched (init store_search)) ! 0) = [''Q'', ''q/sub''] \<and>
   distinct (matched (tasks (exec store_engine store_sched (init store_search)) ! 0)) \<and>
   hd (matched (tasks (exec store_engine store_sched (init store_search)) ! 0)) = ''Q'' \<and>
   rid (hd (filter is_append (task_lines 0 (written (exec store_engine store_sched (init store_search))))))
     = 0"
proof -
  have h: "0 < length (tasks (exec store_engine store_sched (init store_search)))"
    by code_simp
  have x: "map_of (loadEntries ascii_lower (Some store_lines))
     (ascii_lower (TrimPrefix (query (tasks (exec store_engine store_sched (init store_search)) ! 0))
        ''gp '')) = Some ''Q''"
    by code_simp
  have m: "matched (tasks (exec store_engine store_sched (init store_search)) ! 0) = [''Q'', ''q/sub'']"
    by code_simp
  have s: "exec store_engine store_sched (init store_search) =
      exec (gopass_engine test_Unmarshal ascii_lower (Some store_lines) store_order handler_ok)
        store_sched (init store_search)"
    by (simp add: store_engine_def)
  note T = gopass_exact_match_first [OF s store_visits h]
  from T [THEN conjunct1]
  have 1: "distinct (matched (tasks (exec store_engine store_sched (init store_search)) ! 0))" .
  from T [THEN conjunct2, THEN conjunct2, THEN conjunct2, rule_format, OF x] m
  have 2: "hd (matched (tasks (exec store_engine store_sched (init store_search)) ! 0)) = ''Q'' \<and>
     rid (hd (filter is_append (task_lines 0 (written (exec store_engine store_sched (init store_search))))))
     = 0" by simp
  from h x m 1 2 show ?thesis by simp
qed

text \<open>
  C10. \<^verbatim>\<open>LoadConfig\<close> on a nil receiver returns the error \<^verbatim>\<open>config is nil\<close>. When
  \<^verbatim>\<open>OnSearch\<close> or \<^verbatim>\<open>OnActivate\<close> is unset, \<^verbatim>\<open>LoadConfig\<close> returns an error and \<^verbatim>\<open>Run\<close>,
  under every schedule, logs that error on the logger \<^verbatim>\<open>LoadConfig\<close> chose and has
  returned: no line of the input is read, nothing is written, no goroutine is spawned and
  no callback is called.
\<close>

theorem invalid_config_returns:
  "snd (LoadConfig os_stdin (None :: 'p Config option)) = Inl ''config is nil'' \<and>
   (OnSearch cfg = None \<or> OnActivate cfg = None \<longrightarrow>
      (\<exists>err. snd (LoadConfig os_stdin (Some cfg)) = Inl err \<and>
         fst (Run um os_stdin cfg sched) =
           (case Logger cfg of None \<Rightarrow> Discard | Some n \<Rightarrow> UserLogger n) \<and>
         logs (snd (Run um os_stdin cfg sched)) = [LInvalidConfig err] \<and>
         mainpc (snd (Run um os_stdin cfg sched)) = MDone \<and>
         requests (snd (Run um os_stdin cfg sched)) =
           (case Stdin cfg of None \<Rightarrow> os_stdin | Some r \<Rightarrow> r) \<and>
         written (snd (Run um os_stdin cfg sched)) = [] \<and>
         tasks (snd (Run um os_stdin cfg sched)) = [] \<and>
         searched (snd (Run um os_stdin cfg sched)) = [] \<and>
         activated (snd (Run um os_stdin cfg sched)) = []))"
  by (auto simp: LoadConfig_def Run_def Let_def init_def logf_def split: option.splits)

text \<open>
  C10, on the configuration of \<^verbatim>\<open>TestRunWithInvalidConfig\<close> with one input line waiting.
\<close>

theorem invalid_config_returns_witness:
  "OnSearch (\<lparr>Stdin = Some [exit_literal], Stdout = None, Logger = Some 0,
      OnSearch = None, OnActivate = None\<rparr> :: unit Config) = None \<and>
   logs (snd (Run test_Unmarshal [] (\<lparr>Stdin = Some [exit_literal], Stdout = None, Logger = Some 0,
      OnSearch = None, OnActivate = None\<rparr> :: unit Config) [MainT, MainT])) =
     [LInvalidConfig ''config OnSearch callback is required''] \<and>
   requests (snd (Run test_Unmarshal [] (\<lparr>Stdin = Some [exit_literal], Stdout = None, Logger = Some 0,
      OnSearch = None, OnActivate = None\<rparr> :: unit Config) [MainT, MainT])) = [exit_literal] \<and>
   written (snd (Run test_Unmarshal [] (\<lparr>Stdin = Some [exit_literal], Stdout = None, Logger = Some 0,
      OnSearch = None, OnActivate = None\<rparr> :: unit Config) [MainT, MainT])) = []"
proof -
  have h: "OnSearch (\<lparr>Stdin = Some [exit_literal], Stdout = None, Logger = Some 0,
      OnSearch = None, OnActivate = None\<rparr> :: unit Config) = None" by simp
  have l: "snd (LoadConfig [] (Some (\<lparr>Stdin = Some [exit_literal], Stdout = None, Logger = Some 0,
      OnSearch = None, OnActivate = None\<rparr> :: unit Config))) =
      Inl ''config OnSearch callback is required''"
    by (simp add: LoadConfig_def)
  from invalid_config_returns [of "[]" "\<lparr>Stdin = Some [exit_literal], Stdout = None, Logger = Some 0,
      OnSearch = None, OnActivate = None\<rparr> :: unit Config" test_Unmarshal "[MainT, MainT]",
      THEN conjunct2] h l
  show ?thesis by auto
qed

end
